theory Spec2Isabelle
  imports Complex_Main "HOL-Library.Word" "HOL-Library.Char_ord" "HOL-Library.Log_Nat"
begin

section \<open>Region-based state merging: \<open>lib/Core/MergeHandler.cpp\<close>\<close>

text \<open>
  Modelled from the spec: the declarations of \<^verbatim>\<open>MergeHandler\<close>, \<^verbatim>\<open>ExecutionState\<close> and
  \<^verbatim>\<open>Executor\<close> (their headers are not among the sources). The fields are those of the
  data model of the specification that \<^verbatim>\<open>MergeHandler.cpp\<close> reads and writes, under the
  names it uses. The instruction counters and \<^verbatim>\<open>closedStateCount\<close> are 64-bit unsigned
  values (\<^verbatim>\<open>closedStateCount: u64\<close> in the data model); \<^verbatim>\<open>getInstrDistance\<close> returns
  \<^verbatim>\<open>unsigned\<close>, 32 bits, as its definition in the source says.

  An \<^verbatim>\<open>ExecutionState*\<close> and an \<^verbatim>\<open>llvm::Instruction*\<close> are addresses; two pointers
  are the same state exactly when the addresses are equal. The only field of an execution
  state the handler reads is \<^verbatim>\<open>steppedInstructions\<close>.
\<close>

subsection \<open>The type \<^verbatim>\<open>double\<close>\<close>

text \<open>
  \<^verbatim>\<open>closeMean\<close> is a \<^verbatim>\<open>double\<close>: an IEEE 754 binary64 value. A value is a real number
  that the format represents, an infinity, or NaN. The format has two zeros; they are
  equal under every comparison and differ only as divisors and in print, and the handler
  divides by a converted unsigned count and prints nothing, so both are \<open>Finite 0\<close>.

  \<open>round_double\<close> is the rounding of every operation, to nearest with ties to even: 53
  significant bits, the least exponent \<open>-1074\<close> for the last bit (below \<open>2 ^ - 1022\<close> the
  values are subnormal), and an infinity when the rounded magnitude reaches \<open>2 ^ 1024\<close>.
  \<open>floor_log2 x\<close> is the exponent \<open>e\<close> with \<open>2 ^ e \<le> x < 2 ^ (e + 1)\<close> of a positive
  \<open>x\<close>.
\<close>

datatype double = Finite real | PlusInf | MinusInf | NaN

definition pow2 :: "int \<Rightarrow> real" where
  "pow2 e = (if 0 \<le> e then 2 ^ nat e else 1 / 2 ^ nat (- e))"

definition floor_log2 :: "real \<Rightarrow> int" where
  "floor_log2 x =
     (if 1 \<le> x then bitlen \<lfloor>x\<rfloor> - 1
      else let b = bitlen \<lfloor>1 / x\<rfloor> in if x * 2 ^ nat (b - 1) = 1 then 1 - b else - b)"

definition round_half_even :: "real \<Rightarrow> int" where
  "round_half_even y =
     (let f = \<lfloor>y\<rfloor>; d = y - of_int f in
      if d < 1 / 2 then f else if 1 / 2 < d then f + 1 else if even f then f else f + 1)"

definition round_double :: "real \<Rightarrow> double" where
  "round_double x =
     (if x = 0 then Finite 0
      else let e = max (floor_log2 \<bar>x\<bar> - 52) (- 1074);
               r = of_int (round_half_even (x / pow2 e)) * pow2 e
           in if 2 ^ 1024 \<le> \<bar>r\<bar> then (if 0 < x then PlusInf else MinusInf) else Finite r)"

text \<open>
  The operations the handler uses: \<^verbatim>\<open>+\<close>, \<^verbatim>\<open>-\<close>, \<^verbatim>\<open>*\<close>, \<^verbatim>\<open>/\<close> and \<^verbatim>\<open><\<close> on two
  \<^verbatim>\<open>double\<close>s, and the conversion of an unsigned integer.
\<close>

fun dadd :: "double \<Rightarrow> double \<Rightarrow> double" where
  "dadd (Finite x) (Finite y) = round_double (x + y)"
| "dadd NaN b = NaN"
| "dadd a NaN = NaN"
| "dadd PlusInf MinusInf = NaN"
| "dadd MinusInf PlusInf = NaN"
| "dadd PlusInf b = PlusInf"
| "dadd a PlusInf = PlusInf"
| "dadd MinusInf b = MinusInf"
| "dadd a MinusInf = MinusInf"

fun dsub :: "double \<Rightarrow> double \<Rightarrow> double" where
  "dsub (Finite x) (Finite y) = round_double (x - y)"
| "dsub NaN b = NaN"
| "dsub a NaN = NaN"
| "dsub PlusInf PlusInf = NaN"
| "dsub MinusInf MinusInf = NaN"
| "dsub PlusInf b = PlusInf"
| "dsub a PlusInf = MinusInf"
| "dsub MinusInf b = MinusInf"
| "dsub a MinusInf = PlusInf"

fun dmul :: "double \<Rightarrow> double \<Rightarrow> double" where
  "dmul (Finite x) (Finite y) = round_double (x * y)"
| "dmul NaN b = NaN"
| "dmul a NaN = NaN"
| "dmul (Finite x) PlusInf = (if x = 0 then NaN else if 0 < x then PlusInf else MinusInf)"
| "dmul (Finite x) MinusInf = (if x = 0 then NaN else if 0 < x then MinusInf else PlusInf)"
| "dmul PlusInf (Finite y) = (if y = 0 then NaN else if 0 < y then PlusInf else MinusInf)"
| "dmul MinusInf (Finite y) = (if y = 0 then NaN else if 0 < y then MinusInf else PlusInf)"
| "dmul PlusInf PlusInf = PlusInf"
| "dmul PlusInf MinusInf = MinusInf"
| "dmul MinusInf PlusInf = MinusInf"
| "dmul MinusInf MinusInf = PlusInf"

fun ddiv :: "double \<Rightarrow> double \<Rightarrow> double" where
  "ddiv (Finite x) (Finite y) =
     (if y = 0 then (if x = 0 then NaN else if 0 < x then PlusInf else MinusInf)
      else round_double (x / y))"
| "ddiv NaN b = NaN"
| "ddiv a NaN = NaN"
| "ddiv (Finite x) b = Finite 0"
| "ddiv PlusInf (Finite y) = (if 0 \<le> y then PlusInf else MinusInf)"
| "ddiv MinusInf (Finite y) = (if 0 \<le> y then MinusInf else PlusInf)"
| "ddiv a b = NaN"

fun dless :: "double \<Rightarrow> double \<Rightarrow> bool" where
  "dless (Finite x) (Finite y) = (x < y)"
| "dless NaN b = False"
| "dless a NaN = False"
| "dless PlusInf b = False"
| "dless a MinusInf = False"
| "dless a b = True"

definition double_of_nat :: "nat \<Rightarrow> double" where
  "double_of_nat n = round_double (real n)"

subsection \<open>The handler\<close>

type_synonym es_ptr = nat
type_synonym instr_ptr = nat

record ExecutionState =
  steppedInstructions :: "64 word"

text \<open>
  The executor's \<^verbatim>\<open>pauseState\<close>, \<^verbatim>\<open>terminateState\<close> and \<^verbatim>\<open>continueState\<close>, and
  \<^verbatim>\<open>ExecutionState::merge\<close>, are defined outside these sources. The model records each
  call, in order, in \<open>calls\<close>; the answer of \<^verbatim>\<open>merge\<close> is a parameter of the operations
  that ask for it.
\<close>

datatype executor_call =
    PauseState es_ptr
  | TerminateState es_ptr
  | ContinueState es_ptr
  | Merge es_ptr es_ptr

record Executor =
  states :: "es_ptr \<Rightarrow> ExecutionState"
  inCloseMerge :: "es_ptr set"
  calls :: "executor_call list"

record MergeHandler =
  openInstruction :: "64 word"
  openStates :: "es_ptr list"
  reachedMergeClose :: "instr_ptr \<rightharpoonup> es_ptr list"
  closedStateCount :: "64 word"
  closeMean :: double

datatype error = AssertionFailed | NullDereference

definition pauseState :: "Executor \<Rightarrow> es_ptr \<Rightarrow> Executor" where
  "pauseState ex es = ex\<lparr>calls := calls ex @ [PauseState es]\<rparr>"

definition terminateState :: "Executor \<Rightarrow> es_ptr \<Rightarrow> Executor" where
  "terminateState ex es = ex\<lparr>calls := calls ex @ [TerminateState es]\<rparr>"

definition called_merge :: "Executor \<Rightarrow> es_ptr \<Rightarrow> es_ptr \<Rightarrow> Executor" where
  "called_merge ex mState es = ex\<lparr>calls := calls ex @ [Merge mState es]\<rparr>"

definition getMean :: "MergeHandler \<Rightarrow> double" where
  "getMean h = (if closedStateCount h = 0 then Finite 0 else closeMean h)"

definition getInstrDistance :: "Executor \<Rightarrow> MergeHandler \<Rightarrow> es_ptr \<Rightarrow> 32 word" where
  "getInstrDistance ex h es = ucast (steppedInstructions (states ex es) - openInstruction h)"

text \<open>The loop of \<^verbatim>\<open>getPrioritizeState\<close> over \<^verbatim>\<open>openStates\<close>; \<open>None\<close> is the null pointer.\<close>

fun prioritize_from :: "Executor \<Rightarrow> MergeHandler \<Rightarrow> es_ptr list \<Rightarrow> es_ptr option" where
  "prioritize_from ex h [] = None"
| "prioritize_from ex h (cur_state # rest) =
     (let stateIsClosed = (cur_state \<in> inCloseMerge ex) in
      if \<not> stateIsClosed \<and>
         dless (double_of_nat (unat (getInstrDistance ex h cur_state)))
               (dmul (Finite 2) (getMean h))
      then Some cur_state
      else prioritize_from ex h rest)"

definition getPrioritizeState :: "Executor \<Rightarrow> MergeHandler \<Rightarrow> es_ptr option" where
  "getPrioritizeState ex h = prioritize_from ex h (openStates h)"

definition addOpenState :: "MergeHandler \<Rightarrow> es_ptr \<Rightarrow> MergeHandler" where
  "addOpenState h es = h\<lparr>openStates := openStates h @ [es]\<rparr>"

text \<open>
  \<^verbatim>\<open>std::find\<close>: the position of the first element equal to \<open>x\<close>, the length of the
  list (the end iterator) when there is none. \<^verbatim>\<open>std::swap\<close> of two slots and
  \<^verbatim>\<open>pop_back\<close> follow.
\<close>

fun std_find :: "'a list \<Rightarrow> 'a \<Rightarrow> nat" where
  "std_find [] x = 0"
| "std_find (y # ys) x = (if y = x then 0 else Suc (std_find ys x))"

definition std_swap :: "'a list \<Rightarrow> nat \<Rightarrow> nat \<Rightarrow> 'a list" where
  "std_swap xs i j = xs[i := xs ! j, j := xs ! i]"

definition pop_back :: "'a list \<Rightarrow> 'a list" where
  "pop_back xs = butlast xs"

definition removeOpenState :: "MergeHandler \<Rightarrow> es_ptr \<Rightarrow> error + MergeHandler" where
  "removeOpenState h es =
     (let it = std_find (openStates h) es in
      if it = length (openStates h) then Inl AssertionFailed
      else Inr (h\<lparr>openStates :=
                  pop_back (std_swap (openStates h) it (length (openStates h) - 1))\<rparr>))"

text \<open>
  The loop of \<^verbatim>\<open>addClosedState\<close> over the bucket \<^verbatim>\<open>cpv\<close>: the result is the executor
  after the calls made and the flag \<^verbatim>\<open>mergedSuccessful\<close>.
\<close>

fun try_merge ::
  "(es_ptr \<Rightarrow> es_ptr \<Rightarrow> bool) \<Rightarrow> Executor \<Rightarrow> es_ptr list \<Rightarrow> es_ptr \<Rightarrow> Executor \<times> bool" where
  "try_merge merge ex [] es = (ex, False)"
| "try_merge merge ex (mState # rest) es =
     (if merge mState es
      then (terminateState (called_merge ex mState es) es, True)
      else try_merge merge (called_merge ex mState es) rest es)"

definition addClosedState ::
  "(es_ptr \<Rightarrow> es_ptr \<Rightarrow> bool) \<Rightarrow> Executor \<Rightarrow> MergeHandler \<Rightarrow> es_ptr \<Rightarrow> instr_ptr
     \<Rightarrow> error + (Executor \<times> MergeHandler)" where
  "addClosedState merge ex h es mp =
     (let h1 = h\<lparr>closedStateCount := closedStateCount h + 1\<rparr>;
          h2 = h1\<lparr>closeMean :=
                  dadd (closeMean h1)
                    (ddiv (dsub (double_of_nat (unat (getInstrDistance ex h1 es))) (closeMean h1))
                          (double_of_nat (unat (closedStateCount h1))))\<rparr>
      in case removeOpenState h2 es of
           Inl e \<Rightarrow> Inl e
         | Inr h3 \<Rightarrow>
             (case reachedMergeClose h3 mp of
                None \<Rightarrow>
                  Inr (pauseState ex es,
                       h3\<lparr>reachedMergeClose := (reachedMergeClose h3)(mp \<mapsto> [es])\<rparr>)
              | Some cpv \<Rightarrow>
                  (case try_merge merge ex cpv es of
                     (ex', True) \<Rightarrow> Inr (ex', h3)
                   | (ex', False) \<Rightarrow>
                       Inr (pauseState ex' es,
                            h3\<lparr>reachedMergeClose :=
                                 (reachedMergeClose h3)(mp \<mapsto> cpv @ [es])\<rparr>))))"

text \<open>
  A handler as its constructor leaves it: the opening state is the only open state and
  no state has closed. The constructor initialises \<^verbatim>\<open>closedStateCount\<close> and does not
  initialise \<^verbatim>\<open>closeMean\<close>, whose first value is whatever the memory held: a parameter.
\<close>

definition new_MergeHandler :: "Executor \<Rightarrow> es_ptr \<Rightarrow> double \<Rightarrow> MergeHandler" where
  "new_MergeHandler ex es m0 =
     addOpenState \<lparr>openInstruction = steppedInstructions (states ex es), openStates = [],
                   reachedMergeClose = Map.empty, closedStateCount = 0, closeMean = m0\<rparr> es"

text \<open>Sequences of calls made on one handler.\<close>

datatype open_op = AddOpen es_ptr | RemoveOpen es_ptr

fun apply_open_ops :: "MergeHandler \<Rightarrow> open_op list \<Rightarrow> error + MergeHandler" where
  "apply_open_ops h [] = Inr h"
| "apply_open_ops h (AddOpen es # ops) = apply_open_ops (addOpenState h es) ops"
| "apply_open_ops h (RemoveOpen es # ops) =
     (case removeOpenState h es of Inl e \<Rightarrow> Inl e | Inr h' \<Rightarrow> apply_open_ops h' ops)"

text \<open>
  A sequence of \<^verbatim>\<open>addClosedState\<close> calls. The interpreter runs between two calls, so
  each call comes with the executor as it is then and with the answers \<^verbatim>\<open>merge\<close> gives
  then.
\<close>

fun addClosedStates ::
  "MergeHandler \<Rightarrow> ((es_ptr \<Rightarrow> es_ptr \<Rightarrow> bool) \<times> Executor \<times> es_ptr \<times> instr_ptr) list
     \<Rightarrow> error + MergeHandler" where
  "addClosedStates h [] = Inr h"
| "addClosedStates h ((merge, ex, es, mp) # cs) =
     (case addClosedState merge ex h es mp of
        Inl e \<Rightarrow> Inl e
      | Inr (ex', h') \<Rightarrow> addClosedStates h' cs)"

text \<open>
  The precondition on the callers of \<^verbatim>\<open>addOpenState\<close> that the source leaves unchecked:
  along the sequence, a state is added only while it is not open.
\<close>

fun adds_fresh :: "MergeHandler \<Rightarrow> open_op list \<Rightarrow> bool" where
  "adds_fresh h [] = True"
| "adds_fresh h (AddOpen es # ops) =
     (es \<notin> set (openStates h) \<and> adds_fresh (addOpenState h es) ops)"
| "adds_fresh h (RemoveOpen es # ops) =
     (case removeOpenState h es of Inl e \<Rightarrow> True | Inr h' \<Rightarrow> adds_fresh h' ops)"

text \<open>Concrete executors and handlers for the scenarios below.\<close>

definition scenario_executor :: "(es_ptr \<Rightarrow> 64 word) \<Rightarrow> es_ptr set \<Rightarrow> Executor" where
  "scenario_executor stepped closing =
     \<lparr>states = (\<lambda>es. \<lparr>steppedInstructions = stepped es\<rparr>), inCloseMerge = closing, calls = []\<rparr>"

definition executor_at :: "64 word \<Rightarrow> Executor" where
  "executor_at n = scenario_executor (\<lambda>es. n) {}"

definition idle_executor :: Executor where
  "idle_executor = executor_at 0"

definition never_merge :: "es_ptr \<Rightarrow> es_ptr \<Rightarrow> bool" where
  "never_merge mState es = False"

definition scenario_handler ::
  "es_ptr list \<Rightarrow> (instr_ptr \<rightharpoonup> es_ptr list) \<Rightarrow> 64 word \<Rightarrow> double \<Rightarrow> MergeHandler" where
  "scenario_handler open_states buckets n m =
     \<lparr>openInstruction = 0, openStates = open_states, reachedMergeClose = buckets,
      closedStateCount = n, closeMean = m\<rparr>"

definition handler_opened_at :: "64 word \<Rightarrow> es_ptr list \<Rightarrow> 64 word \<Rightarrow> double \<Rightarrow> MergeHandler" where
  "handler_opened_at opened open_states n m =
     (scenario_handler open_states Map.empty n m)\<lparr>openInstruction := opened\<rparr>"

section \<open>The call tree: \<open>tools/klee/main.cpp\<close>\<close>

text \<open>
  \<^verbatim>\<open>CallInfo\<close> is declared in a header that is not among the sources, and so are its
  methods \<^verbatim>\<open>eq\<close> and \<^verbatim>\<open>sameInvocation\<close>. A call record is a value of a type \<open>'c\<close>,
  and the two methods are parameters \<open>eq\<close> and \<open>sameInvocation\<close> of the functions that
  call them; \<open>eq a b\<close> stands for \<^verbatim>\<open>a.eq(b)\<close> and \<open>sameInvocation a b\<close> for
  \<^verbatim>\<open>a.sameInvocation(&b)\<close>.

  A tree owns its children, so a \<^verbatim>\<open>CallTree*\<close> of the vector \<^verbatim>\<open>children\<close> is the subtree
  itself. The root is built by \<^verbatim>\<open>CallTree()\<close>, whose tip holds a default call record
  (a parameter) and path id 0.
\<close>

record 'c CallPathTip =
  call :: 'c
  path_id :: "32 word"

datatype 'c CallTree = CallTree (children: "'c CallTree list") (tip: "'c CallPathTip")

definition new_CallTree :: "'c \<Rightarrow> 'c CallTree" where
  "new_CallTree no_call = CallTree [] \<lparr>call = no_call, path_id = 0\<rparr>"

text \<open>
  \<^verbatim>\<open>addCallPath\<close> on the path from \<^verbatim>\<open>path_begin\<close> to \<^verbatim>\<open>path_end\<close>: the path is the list
  of the calls in that range, \<open>c\<close> is \<^verbatim>\<open>*path_begin\<close> and \<open>next\<close> the range after it.
  \<open>addCallPath_children\<close> is the loop over \<^verbatim>\<open>children\<close> and the code after it, which
  appends a new child.
\<close>

function addCallPath ::
    "('c \<Rightarrow> 'c \<Rightarrow> bool) \<Rightarrow> 'c CallTree \<Rightarrow> 'c list \<Rightarrow> 32 word \<Rightarrow> 'c CallTree"
  and addCallPath_children ::
    "('c \<Rightarrow> 'c \<Rightarrow> bool) \<Rightarrow> 'c CallTree list \<Rightarrow> 'c \<Rightarrow> 'c list \<Rightarrow> 32 word \<Rightarrow> 'c CallTree list"
  where
  "addCallPath eq t [] pid = t"
| "addCallPath eq t (c # next) pid =
     CallTree (addCallPath_children eq (children t) c next pid) (tip t)"
| "addCallPath_children eq [] c next pid =
     [addCallPath eq (CallTree [] \<lparr>call = c, path_id = pid\<rparr>) next pid]"
| "addCallPath_children eq (n # ns) c next pid =
     (if eq (call (tip n)) c then addCallPath eq n next pid # ns
      else n # addCallPath_children eq ns c next pid)"
  by pat_completeness auto
termination
  by (relation "inv_image (less_than <*lex*> less_than)
        (\<lambda>x. case x of
           Inl (eq, t, path, pid) \<Rightarrow> (2 * length path, 0)
         | Inr (eq, ch, c, next, pid) \<Rightarrow> (2 * length next + 1, length ch))") auto

text \<open>
  \<^verbatim>\<open>processCallPath\<close> adds the call path of every terminated state to the one tree of
  the handler: a sequence of paths, each with its path id, added in order.
\<close>

definition addCallPaths ::
  "('c \<Rightarrow> 'c \<Rightarrow> bool) \<Rightarrow> 'c CallTree \<Rightarrow> ('c list \<times> 32 word) list \<Rightarrow> 'c CallTree" where
  "addCallPaths eq t ps = foldl (\<lambda>t (path, pid). addCallPath eq t path pid) t ps"

text \<open>
  \<^verbatim>\<open>groupChildren\<close> returns vectors of pointers to the tips of the children. The pointer
  \<^verbatim>\<open>&children[ci]->tip\<close> is the index \<open>ci\<close>; the tip it points to is
  \<open>tip (children t ! ci)\<close>. \<open>place_tip\<close> is the body of the outer loop for the child
  \<open>ci\<close>: the inner loop over the groups found so far and the new group opened when
  none matches.
\<close>

fun place_tip ::
  "('c \<Rightarrow> 'c \<Rightarrow> bool) \<Rightarrow> 'c CallTree list \<Rightarrow> nat \<Rightarrow> nat list list \<Rightarrow> nat list list" where
  "place_tip sameInvocation ch ci [] = [[ci]]"
| "place_tip sameInvocation ch ci (g # gs) =
     (if sameInvocation (call (tip (ch ! ci))) (call (tip (ch ! (g ! 0))))
      then (g @ [ci]) # gs
      else g # place_tip sameInvocation ch ci gs)"

definition groupChildren :: "('c \<Rightarrow> 'c \<Rightarrow> bool) \<Rightarrow> 'c CallTree \<Rightarrow> nat list list" where
  "groupChildren sameInvocation t =
     foldl (\<lambda>ret ci. place_tip sameInvocation (children t) ci ret) []
       [0..<length (children t)]"

text \<open>
  The nodes of a tree other than its root, each given by the calls on the way from the
  root to it: one entry for every node. The length of this list is the size of the tree.
\<close>

fun nodes :: "'c CallTree \<Rightarrow> 'c list list"
  and nodes_children :: "'c CallTree list \<Rightarrow> 'c list list" where
  "nodes (CallTree ch tp) = nodes_children ch"
| "nodes_children [] = []"
| "nodes_children (n # ns) =
     ([call (tip n)] # map ((#) (call (tip n))) (nodes n)) @ nodes_children ns"

text \<open>
  The invariant of the data model: among the children of a node, no tip call is
  \<open>eq\<close> to the tip call of a later child.
\<close>

fun siblings_distinct :: "('c \<Rightarrow> 'c \<Rightarrow> bool) \<Rightarrow> 'c CallTree \<Rightarrow> bool"
  and siblings_distinct_children :: "('c \<Rightarrow> 'c \<Rightarrow> bool) \<Rightarrow> 'c CallTree list \<Rightarrow> bool" where
  "siblings_distinct eq (CallTree ch tp) = siblings_distinct_children eq ch"
| "siblings_distinct_children eq [] = True"
| "siblings_distinct_children eq (n # ns) =
     ((\<forall>n'\<in>set ns. \<not> eq (call (tip n)) (call (tip n'))) \<and>
      siblings_distinct eq n \<and> siblings_distinct_children eq ns)"

text \<open>
  A tree represents a set \<open>P\<close> of call sequences when its siblings are distinct, every
  sequence of \<open>P\<close> is matched call by call by a node and every node matches a sequence of
  \<open>P\<close>.
\<close>

definition represents ::
  "('c \<Rightarrow> 'c \<Rightarrow> bool) \<Rightarrow> 'c CallTree \<Rightarrow> 'c list set \<Rightarrow> bool" where
  "represents eq t P \<longleftrightarrow>
     siblings_distinct eq t \<and>
     (\<forall>q\<in>P. \<exists>m\<in>set (nodes t). list_all2 eq m q) \<and>
     (\<forall>m\<in>set (nodes t). \<exists>q\<in>P. list_all2 eq m q)"

text \<open>
  The state of the outer loop of \<^verbatim>\<open>groupChildren\<close> after the children below \<open>k\<close>: no
  group is empty, the indices of a group increase, the first members of the groups
  increase, every index below \<open>k\<close> is in a group and in one only, and every member of a
  group other than the first was found \<open>sameInvocation\<close> with the first.
\<close>

definition grouped ::
  "('c \<Rightarrow> 'c \<Rightarrow> bool) \<Rightarrow> 'c CallTree list \<Rightarrow> nat \<Rightarrow> nat list list \<Rightarrow> bool" where
  "grouped sameInvocation ch k gs \<longleftrightarrow>
     [] \<notin> set gs \<and>
     (\<forall>g\<in>set gs. sorted_wrt (<) g) \<and>
     sorted_wrt (<) (map hd gs) \<and>
     set (concat gs) = {..<k} \<and>
     distinct (concat gs) \<and>
     (\<forall>g\<in>set gs. \<forall>i\<in>set g.
        i = hd g \<or> sameInvocation (call (tip (ch ! i))) (call (tip (ch ! hd g))))"

section \<open>Test-case output: the object names of \<open>processTestCase\<close>\<close>

text \<open>
  \<^verbatim>\<open>std::string::rfind\<close> gives the position of the last occurrence, \<open>None\<close> for
  \<^verbatim>\<open>npos\<close>; \<^verbatim>\<open>substr(pos, n)\<close> the \<open>n\<close> characters from \<open>pos\<close>. \<open>all_digits_from\<close>
  is the loop that computes \<^verbatim>\<open>all_digits\<close>, from \<^verbatim>\<open>j = last_underscore + 1\<close>. The index
  \<^verbatim>\<open>j\<close> is an \<^verbatim>\<open>unsigned\<close>; it is modelled as a natural number, which is the same for
  names shorter than \<open>2 ^ 32\<close> characters.
\<close>

fun rfind :: "string \<Rightarrow> char \<Rightarrow> nat option" where
  "rfind [] c = None"
| "rfind (x # xs) c =
     (case rfind xs c of
        Some pos \<Rightarrow> Some (Suc pos)
      | None \<Rightarrow> if x = c then Some 0 else None)"

definition substr :: "string \<Rightarrow> nat \<Rightarrow> nat \<Rightarrow> string" where
  "substr s pos n = take n (drop pos s)"

function all_digits_from :: "string \<Rightarrow> nat \<Rightarrow> bool" where
  "all_digits_from name j =
     (if j < length name
      then (if CHR ''0'' \<le> name ! j \<and> name ! j \<le> CHR ''9''
            then all_digits_from name (j + 1)
            else False)
      else True)"
  by pat_completeness auto
termination
  by (relation "measure (\<lambda>(name, j). length name - j)") auto

declare all_digits_from.simps [simp del]

text \<open>The name given to object \<open>i\<close> of the test record, from \<^verbatim>\<open>out[i].first\<close>.\<close>

definition ktest_object_name :: "string \<Rightarrow> string" where
  "ktest_object_name out_name =
     (let name = out_name; last_underscore = rfind out_name CHR ''_'' in
      case last_underscore of
        None \<Rightarrow> name
      | Some u \<Rightarrow> if all_digits_from name (u + 1) then substr name 0 u else name)"

section \<open>The runtime intrinsic \<open>klee_make_symbolic_range\<close>\<close>

text \<open>
  Pointers and \<^verbatim>\<open>size_t\<close> values are 64-bit words, the memory maps an address to a
  byte. The functions the intrinsic calls are outside the sources: each call is recorded
  in \<open>runtime_calls\<close>; the pointer \<^verbatim>\<open>malloc\<close> returns and the bytes
  \<^verbatim>\<open>klee_make_symbolic\<close> writes are given by the environment.
\<close>

type_synonym address = "64 word"

datatype runtime_call =
    Klee_check_memory_access address address
  | Malloc address address
  | Klee_make_symbolic address address address
  | Memcpy address address address
  | Free address

record runtime =
  bytes :: "address \<Rightarrow> 8 word"
  runtime_calls :: "runtime_call list"

record runtime_env =
  malloc_returns :: address
  symbolic_byte :: "nat \<Rightarrow> 8 word"

fun write_bytes ::
  "(address \<Rightarrow> 8 word) \<Rightarrow> address \<Rightarrow> (nat \<Rightarrow> 8 word) \<Rightarrow> nat \<Rightarrow> (address \<Rightarrow> 8 word)" where
  "write_bytes m dst src 0 = m"
| "write_bytes m dst src (Suc n) = (write_bytes m dst src n)(dst + of_nat n := src n)"

definition klee_check_memory_access :: "runtime \<Rightarrow> address \<Rightarrow> address \<Rightarrow> runtime" where
  "klee_check_memory_access rt start nbytes =
     rt\<lparr>runtime_calls := runtime_calls rt @ [Klee_check_memory_access start nbytes]\<rparr>"

definition malloc :: "runtime_env \<Rightarrow> runtime \<Rightarrow> address \<Rightarrow> address \<times> runtime" where
  "malloc env rt nbytes =
     (malloc_returns env,
      rt\<lparr>runtime_calls := runtime_calls rt @ [Malloc nbytes (malloc_returns env)]\<rparr>)"

definition klee_make_symbolic ::
  "runtime_env \<Rightarrow> runtime \<Rightarrow> address \<Rightarrow> address \<Rightarrow> address \<Rightarrow> runtime" where
  "klee_make_symbolic env rt data nbytes name =
     rt\<lparr>bytes := write_bytes (bytes rt) data (symbolic_byte env) (unat nbytes),
        runtime_calls := runtime_calls rt @ [Klee_make_symbolic data nbytes name]\<rparr>"

definition memcpy :: "runtime \<Rightarrow> address \<Rightarrow> address \<Rightarrow> address \<Rightarrow> runtime" where
  "memcpy rt dst src nbytes =
     rt\<lparr>bytes := write_bytes (bytes rt) dst (\<lambda>i. bytes rt (src + of_nat i)) (unat nbytes),
        runtime_calls := runtime_calls rt @ [Memcpy dst src nbytes]\<rparr>"

definition free :: "runtime \<Rightarrow> address \<Rightarrow> runtime" where
  "free rt p = rt\<lparr>runtime_calls := runtime_calls rt @ [Free p]\<rparr>"

definition klee_make_symbolic_range ::
  "runtime_env \<Rightarrow> runtime \<Rightarrow> address \<Rightarrow> address \<Rightarrow> address \<Rightarrow> address \<Rightarrow> error + runtime" where
  "klee_make_symbolic_range env rt addr offset nbytes name =
     (if addr = 0 then Inl AssertionFailed
      else if name = 0 then Inl AssertionFailed
      else if nbytes = 0 then Inr rt
      else
        (let start = addr + offset;
             rt1 = klee_check_memory_access rt start nbytes;
             (symbolic_data, rt2) = malloc env rt1 nbytes;
             rt3 = klee_make_symbolic env rt2 symbolic_data nbytes name;
             rt4 = memcpy rt3 start symbolic_data nbytes
         in Inr (free rt4 symbolic_data)))"

section \<open>Call-path dumps: \<open>tools/klee/main.cpp\<close>\<close>

text \<open>
  Modelled from the spec: the declarations of \<^verbatim>\<open>FieldDescr\<close>, \<^verbatim>\<open>CallArg\<close>,
  \<^verbatim>\<open>CallExtraPtr\<close>, \<^verbatim>\<open>RetVal\<close> and \<^verbatim>\<open>CallInfo\<close> (their header is not among the
  sources). The fields are those of the data model of the specification, under the names
  by which the dump functions read them. An expression is given by its printed text, and
  a \<^verbatim>\<open>ref<Expr>\<close> is \<open>None\<close> when it is null. An \<^verbatim>\<open>llvm::Function*\<close> is the name of
  the function, \<open>None\<close> when null. A \<^verbatim>\<open>std::map\<close> is the list of its entries in the
  order of iteration.
\<close>

type_synonym expr = string

datatype FieldDescr = FieldDescr
  (fd_name: string) (fd_type: string) (fd_addr: nat)
  (doTraceValueIn: bool) (inVal: "expr option")
  (doTraceValueOut: bool) (outVal: "expr option")
  (fd_fields: "(int \<times> FieldDescr) list")

record CallArg =
  arg_name :: string
  arg_expr :: "expr option"
  arg_isPtr :: bool
  arg_funPtr :: "string option"
  arg_pointee :: FieldDescr

record CallExtraPtr =
  extra_name :: string
  extra_ptr :: nat
  accessibleIn :: bool
  accessibleOut :: bool
  extra_pointee :: FieldDescr

record RetVal =
  ret_expr :: "expr option"
  ret_isPtr :: bool
  ret_funPtr :: "string option"
  ret_pointee :: FieldDescr

record CallInfo =
  f_name :: string
  callPlace_line :: nat
  args :: "CallArg list"
  extraPtrs :: "(nat \<times> CallExtraPtr) list"
  ret :: RetVal
  returned :: bool
  callContext :: "expr list"
  returnContext :: "expr list"


text \<open>
  A dump function writes to a stream and then returns \<^verbatim>\<open>true\<close>, returns \<^verbatim>\<open>false\<close>
  early, or does not return: dereferencing a null \<^verbatim>\<open>ref\<close> and a failed \<^verbatim>\<open>assert\<close>
  end the process. A statement is the pair of how it ends and the text it has written;
  \<open>Continue\<close> is the end of a statement after which the next one runs. \<open>seq\<close> runs
  statements in order up to the first that does not continue.
\<close>

datatype status = Continue | ReturnFalse | Crash error

type_synonym step = "status \<times> string"

definition emit :: "string \<Rightarrow> step" where
  "emit s = (Continue, s)"

definition emit_deref :: "expr option \<Rightarrow> step" where
  "emit_deref r = (case r of None \<Rightarrow> (Crash NullDereference, []) | Some e \<Rightarrow> (Continue, e))"

definition return_false :: step where
  "return_false = (ReturnFalse, [])"

definition skip :: step where
  "skip = (Continue, [])"

definition assert :: "bool \<Rightarrow> step" where
  "assert b = (if b then (Continue, []) else (Crash AssertionFailed, []))"

fun seq :: "step list \<Rightarrow> step" where
  "seq [] = (Continue, [])"
| "seq ((Continue, w) # rest) = (case seq rest of (st, w') \<Rightarrow> (st, w @ w'))"
| "seq ((st, w) # rest) = (st, w)"

text \<open>Printing an unsigned number, and \<^verbatim>\<open>std::setw\<close> with \<^verbatim>\<open>std::setfill\<close>.\<close>

function decimal :: "nat \<Rightarrow> string" where
  "decimal n =
     (if n < 10 then [''0123456789'' ! n]
      else decimal (n div 10) @ [''0123456789'' ! (n mod 10)])"
  by pat_completeness auto
termination
  by (relation "measure id") auto

declare decimal.simps [simp del]


text \<open>
  \<^verbatim>\<open>dumpCallInfo\<close>. \<open>dump_pointee_field\<close> is the body of its loop over the fields of
  an argument's pointee, \<open>dump_arg\<close> the body of its loop over the arguments, \<open>dump_ret\<close>
  the part for the return value and \<open>dump_extra_ptr\<close> the body of the loop over the extra
  pointers. The extra pointers' values are printed by the \<^verbatim>\<open>operator<<\<close> of \<^verbatim>\<open>ref\<close>,
  which is not in the sources: it is the parameter \<open>print_ref\<close>.
\<close>

definition dump_pointee_field :: "FieldDescr \<Rightarrow> step" where
  "dump_pointee_field fd =
     seq [emit ''['', emit (fd_name fd), emit '':'',
          if doTraceValueIn fd \<or> doTraceValueOut fd then
            seq [if doTraceValueIn fd then emit_deref (inVal fd) else skip,
                 emit ''->'',
                 if doTraceValueOut fd \<and> outVal fd = None then return_false else skip,
                 if doTraceValueOut fd then emit_deref (outVal fd) else skip,
                 emit '']'']
          else emit ''(...)]'']"

definition dump_arg :: "CallArg \<Rightarrow> bool \<Rightarrow> step" where
  "dump_arg arg is_last =
     seq [emit (arg_name arg), emit '':'', emit_deref (arg_expr arg),
          if arg_isPtr arg then
            seq [emit ''&'',
                 if arg_funPtr arg = None then
                   (if doTraceValueIn (arg_pointee arg) \<or> doTraceValueOut (arg_pointee arg) then
                      seq [emit ''['',
                           if doTraceValueIn (arg_pointee arg)
                           then emit_deref (inVal (arg_pointee arg)) else skip,
                           if doTraceValueOut (arg_pointee arg) \<and> outVal (arg_pointee arg) = None
                           then return_false else skip,
                           emit ''->'',
                           if doTraceValueOut (arg_pointee arg)
                           then emit_deref (outVal (arg_pointee arg)) else skip,
                           emit '']'',
                           seq (map (\<lambda>i. dump_pointee_field (snd i))
                                  (fd_fields (arg_pointee arg)))]
                    else emit ''[...]'')
                 else emit (the (arg_funPtr arg))]
          else skip,
          if \<not> is_last then emit '','' else skip]"

fun dump_args :: "CallArg list \<Rightarrow> step" where
  "dump_args [] = skip"
| "dump_args (arg # rest) = seq [dump_arg arg (rest = []), dump_args rest]"

definition dump_ret_field :: "FieldDescr \<Rightarrow> step" where
  "dump_ret_field fd =
     seq [emit ''['', emit (fd_name fd), emit '':'',
          if doTraceValueOut fd then seq [emit_deref (outVal fd), emit '']'']
          else emit ''(...)]'']"

definition dump_ret :: "RetVal \<Rightarrow> step" where
  "dump_ret r =
     (if ret_expr r = None then emit ''[]''
      else
        seq [emit_deref (ret_expr r),
             if ret_isPtr r then
               seq [emit ''&'',
                    if ret_funPtr r = None then
                      (if doTraceValueOut (ret_pointee r) then
                         seq [emit ''['', emit_deref (outVal (ret_pointee r)), emit '']'',
                              seq (map (\<lambda>i. dump_ret_field (snd i))
                                     (fd_fields (ret_pointee r)))]
                       else emit ''[...]'')
                    else emit (the (ret_funPtr r))]
             else skip])"

definition emit_ref :: "(expr option \<Rightarrow> error + string) \<Rightarrow> expr option \<Rightarrow> step" where
  "emit_ref print_ref r =
     (case print_ref r of Inl e \<Rightarrow> (Crash e, []) | Inr s \<Rightarrow> (Continue, s))"

definition dump_extra_ptr ::
  "(expr option \<Rightarrow> error + string) \<Rightarrow> CallExtraPtr \<Rightarrow> step" where
  "dump_extra_ptr print_ref extra =
     seq [emit ''extra: '', emit (extra_name extra), emit ''&'',
          emit (decimal (extra_ptr extra)), emit '' = &['',
          if doTraceValueIn (extra_pointee extra)
          then emit_ref print_ref (inVal (extra_pointee extra)) else emit ''(...)'',
          if doTraceValueOut (extra_pointee extra)
          then seq [emit '' -> '', emit_ref print_ref (outVal (extra_pointee extra))]
          else emit ''-> (...)'',
          emit '']\<newline>'']"

definition dumpCallInfo_steps :: "(expr option \<Rightarrow> error + string) \<Rightarrow> CallInfo \<Rightarrow> step" where
  "dumpCallInfo_steps print_ref ci =
     seq [emit (decimal (callPlace_line ci)), emit '':'', emit (f_name ci), emit ''('',
          assert (returned ci),
          dump_args (args ci),
          emit '') -> '',
          dump_ret (ret ci),
          emit ''\<newline>'',
          seq (map (\<lambda>i. dump_extra_ptr print_ref (snd i)) (extraPtrs ci))]"

definition dumpCallInfo :: "(expr option \<Rightarrow> error + string) \<Rightarrow> CallInfo \<Rightarrow> (error + bool) \<times> string" where
  "dumpCallInfo print_ref ci =
     (case dumpCallInfo_steps print_ref ci of
        (Continue, w) \<Rightarrow> (Inr True, w)
      | (ReturnFalse, w) \<Rightarrow> (Inr False, w)
      | (Crash e, w) \<Rightarrow> (Inl e, w))"

text \<open>
  \<^verbatim>\<open>processCallPath\<close>: \<open>dump_calls\<close> is its loop over the call path, which breaks at
  the first call that is not dumped. \<^verbatim>\<open>openOutputFile\<close> returns null when the file
  cannot be opened (\<open>can_open\<close>), and the stream is then dereferenced. The files written
  are kept with their names in \<open>output_files\<close>.
\<close>

fun dump_calls :: "(expr option \<Rightarrow> error + string) \<Rightarrow> CallInfo list \<Rightarrow> (error + unit) \<times> string" where
  "dump_calls print_ref [] = (Inr (), [])"
| "dump_calls print_ref (ci # rest) =
     (case dumpCallInfo print_ref ci of
        (Inl e, w) \<Rightarrow> (Inl e, w)
      | (Inr False, w) \<Rightarrow> (Inr (), w)
      | (Inr True, w) \<Rightarrow> (case dump_calls print_ref rest of (r, w') \<Rightarrow> (r, w @ w')))"





text \<open>
  \<^verbatim>\<open>dumpCallInfoSExpr\<close> and the functions it calls. \<^verbatim>\<open>dumpFieldsInSExpr\<close> and
  \<^verbatim>\<open>dumpFieldsOutSExpr\<close> are the inner \<open>seq\<close> of \<open>dumpPointeeInSExpr\<close> and
  \<open>dumpPointeeOutSExpr\<close>. The result of \<^verbatim>\<open>dumpExtraPtrSExpr\<close> is not used by its
  caller.
\<close>

definition dquote :: string where
  "dquote = [CHR 0x22]"

fun dumpPointeeInSExpr :: "FieldDescr \<Rightarrow> step" where
  "dumpPointeeInSExpr (FieldDescr name type addr traceIn inV traceOut outV fs) =
     seq [emit ''((full ('',
          if traceIn then emit_deref inV else skip,
          emit ''))\<newline> (sname ('',
          if type \<noteq> [] then emit type else skip,
          emit ''))\<newline>'',
          seq [emit ''(break_down ('',
               seq (map (\<lambda>i. seq [emit ''\<newline>((fname '', emit dquote,
                                     emit (fd_name (snd i)), emit dquote,
                                     emit '') (value '',
                                     dumpPointeeInSExpr (snd i),
                                     emit '') (addr '', emit (decimal (fd_addr (snd i))),
                                     emit ''))'']) fs),
               emit ''))''],
          emit '')'']"

fun dumpPointeeOutSExpr :: "FieldDescr \<Rightarrow> step" where
  "dumpPointeeOutSExpr (FieldDescr name type addr traceIn inV traceOut outV fs) =
     seq [emit ''((full ('',
          if traceOut then emit_deref outV else skip,
          emit ''))\<newline> (sname ('',
          if type \<noteq> [] then emit type else skip,
          emit ''))\<newline>'',
          seq [emit ''(break_down ('',
               seq (map (\<lambda>i. seq [emit ''\<newline>((fname '', emit dquote,
                                     emit (fd_name (snd i)), emit dquote,
                                     emit '') (value '',
                                     dumpPointeeOutSExpr (snd i),
                                     emit '') (addr '', emit (decimal (fd_addr (snd i))),
                                     emit '' ))'']) fs),
               emit ''))''],
          emit '')'']"

definition dumpCallArgSExpr :: "CallArg \<Rightarrow> step" where
  "dumpCallArgSExpr arg =
     seq [emit ''\<newline>((aname '', emit dquote, emit (arg_name arg), emit dquote,
          emit '')\<newline>'',
          emit ''(value '', emit_deref (arg_expr arg), emit '')\<newline>'',
          emit ''(ptr '',
          if arg_isPtr arg then
            (if arg_funPtr arg = None then
               (if doTraceValueIn (arg_pointee arg) \<or> doTraceValueOut (arg_pointee arg) then
                  seq [emit ''(Curioptr\<newline>'',
                       emit ''((before '',
                       dumpPointeeInSExpr (arg_pointee arg),
                       emit '')\<newline>'',
                       emit ''(after '',
                       dumpPointeeOutSExpr (arg_pointee arg),
                       emit '')))\<newline>'']
                else emit ''Apathptr'')
             else seq [emit ''(Funptr '', emit dquote, emit (the (arg_funPtr arg)),
                       emit dquote, emit '')''])
          else emit ''Nonptr'',
          emit ''))'']"

definition dumpRetSExpr :: "RetVal \<Rightarrow> step" where
  "dumpRetSExpr r =
     (if ret_expr r = None then emit ''(ret ())''
      else
        seq [emit ''(ret (((value '', emit_deref (ret_expr r), emit '')\<newline>'',
             emit ''(ptr '',
             if ret_isPtr r then
               (if ret_funPtr r = None then
                  (if doTraceValueIn (ret_pointee r) \<or> doTraceValueOut (ret_pointee r) then
                     seq [emit ''(Curioptr ((before ((full ()) (break_down ()) (sname ()))) (after '',
                          dumpPointeeOutSExpr (ret_pointee r),
                          emit '')))\<newline>'']
                   else emit ''Apathptr'')
                else seq [emit ''(Funptr '', emit dquote, emit (the (ret_funPtr r)),
                          emit dquote, emit '')''])
             else emit ''Nonptr'',
             emit ''))))\<newline>''])"

definition dumpExtraPtrSExpr :: "CallExtraPtr \<Rightarrow> step" where
  "dumpExtraPtrSExpr cep =
     seq [emit ''\<newline>((pname '', emit dquote, emit (extra_name cep), emit dquote,
          emit '')\<newline>'',
          emit ''(value '', emit (decimal (extra_ptr cep)), emit '')\<newline>'',
          emit ''(ptee '',
          if accessibleIn cep then
            (if accessibleOut cep then
               seq [emit ''(Changing ('',
                    dumpPointeeInSExpr (extra_pointee cep),
                    emit ''\<newline>'',
                    dumpPointeeOutSExpr (extra_pointee cep),
                    emit ''))\<newline>'']
             else
               seq [emit ''(Closing '',
                    dumpPointeeInSExpr (extra_pointee cep),
                    emit '')\<newline>''])
          else
            (if accessibleOut cep then
               seq [emit ''(Opening '',
                    dumpPointeeOutSExpr (extra_pointee cep),
                    emit '')\<newline>'']
             else return_false),
          emit ''))\<newline>'']"

definition result_ignored :: "step \<Rightarrow> step" where
  "result_ignored s = (case s of (ReturnFalse, w) \<Rightarrow> (Continue, w) | _ \<Rightarrow> s)"

definition dumpCallInfoSExpr_steps :: "CallInfo \<Rightarrow> step" where
  "dumpCallInfoSExpr_steps ci =
     seq [emit ''((fun_name '', emit dquote, emit (f_name ci), emit dquote,
          emit '')\<newline> (args ('',
          assert (returned ci),
          seq (map dumpCallArgSExpr (args ci)),
          emit ''))\<newline>'',
          emit ''(extra_ptrs ('',
          seq (map (\<lambda>i. result_ignored (dumpExtraPtrSExpr (snd i))) (extraPtrs ci)),
          emit ''))\<newline>'',
          dumpRetSExpr (ret ci),
          emit ''(call_context ('',
          seq (map (\<lambda>c. seq [emit ''\<newline>'', emit c]) (callContext ci)),
          emit ''))\<newline>'',
          emit ''(ret_context ('',
          seq (map (\<lambda>c. seq [emit ''\<newline>'', emit c]) (returnContext ci)),
          emit '')))\<newline>'']"

definition dumpCallInfoSExpr :: "CallInfo \<Rightarrow> (error + bool) \<times> string" where
  "dumpCallInfoSExpr ci =
     (case dumpCallInfoSExpr_steps ci of
        (Continue, w) \<Rightarrow> (Inr True, w)
      | (ReturnFalse, w) \<Rightarrow> (Inr False, w)
      | (Crash e, w) \<Rightarrow> (Inl e, w))"











section \<open>Properties of the merge handler\<close>

lemmas scenario_defs = scenario_executor_def scenario_handler_def

subsection \<open>Removing an open state\<close>

lemma std_find_end_iff: "std_find xs x = length xs \<longleftrightarrow> x \<notin> set xs"
  by (induction xs) auto

lemma std_find_append: "x \<notin> set pre \<Longrightarrow> std_find (pre @ x # post) x = length pre"
  by (induction pre) auto

lemma swap_pop_last:
  "pop_back (std_swap (pre @ [x]) (length pre) (length (pre @ [x]) - 1)) = pre"
  by (simp add: pop_back_def std_swap_def)

lemma swap_pop_inner:
  "pop_back (std_swap (pre @ x # ys @ [y]) (length pre) (length (pre @ x # ys @ [y]) - 1)) =
     pre @ y # ys"
proof -
  have n: "(pre @ x # ys @ [y]) ! (length pre + Suc (length ys)) = y"
    by (simp add: nth_append)
  have "std_swap (pre @ x # ys @ [y]) (length pre) (length pre + Suc (length ys)) =
        pre @ y # ys @ [x]"
    unfolding std_swap_def n
    by (simp add: list_update_append nth_append)
  then show ?thesis
    by (simp add: pop_back_def butlast_append)
qed

lemma removeOpenState_shape:
  assumes "openStates h = pre @ es # post" and "es \<notin> set pre"
  shows "removeOpenState h es =
           Inr (h\<lparr>openStates := (if post = [] then pre else pre @ last post # butlast post)\<rparr>)"
proof (cases post rule: rev_cases)
  case Nil
  with assms show ?thesis
    using swap_pop_last [of pre es]
    by (simp add: removeOpenState_def std_find_append Let_def)
next
  case (snoc ys y)
  with assms show ?thesis
    using swap_pop_inner [of pre es ys y]
    by (simp add: removeOpenState_def std_find_append Let_def)
qed

lemma removeOpenState_absent:
  "es \<notin> set (openStates h) \<Longrightarrow> removeOpenState h es = Inl AssertionFailed"
  using std_find_end_iff [of "openStates h" es] by (simp add: removeOpenState_def Let_def)

lemma removeOpenState_present:
  "es \<in> set (openStates h) \<Longrightarrow>
     removeOpenState h es =
       Inr (h\<lparr>openStates := pop_back (std_swap (openStates h) (std_find (openStates h) es)
                                         (length (openStates h) - 1))\<rparr>)"
  using std_find_end_iff [of "openStates h" es] by (simp add: removeOpenState_def Let_def)

lemma removeOpenState_Inr:
  assumes "removeOpenState h es = Inr h'"
  shows "es \<in> set (openStates h)"
  using assms removeOpenState_absent [of es h] by auto


lemma removeOpenState_distinct:
  assumes "removeOpenState h es = Inr h'" and "distinct (openStates h)"
  shows "distinct (openStates h')"
proof -
  from assms(1) have "es \<in> set (openStates h)" by (rule removeOpenState_Inr)
  then obtain pre post where s: "openStates h = pre @ es # post" "es \<notin> set pre"
    using split_list_first [of es "openStates h"] by blast
  from removeOpenState_shape [OF s] assms(1)
  have o: "openStates h' = (if post = [] then pre else pre @ last post # butlast post)" by auto
  show ?thesis
  proof (cases post rule: rev_cases)
    case Nil
    with o s assms(2) show ?thesis by simp
  next
    case (snoc ys y)
    with o s assms(2) show ?thesis by auto
  qed
qed

subsection \<open>Closing a state: the merge attempts\<close>

lemma try_merge_none:
  "\<forall>p\<in>set cpv. \<not> merge p es \<Longrightarrow>
     try_merge merge ex cpv es = (ex\<lparr>calls := calls ex @ map (\<lambda>p. Merge p es) cpv\<rparr>, False)"
  by (induction cpv arbitrary: ex) (auto simp: called_merge_def)

lemma try_merge_first:
  "\<forall>q\<in>set pre. \<not> merge q es \<Longrightarrow> merge p es \<Longrightarrow>
     try_merge merge ex (pre @ p # post) es =
       (ex\<lparr>calls := calls ex @ map (\<lambda>q. Merge q es) pre @ [Merge p es, TerminateState es]\<rparr>,
        True)"
  by (induction pre arbitrary: ex) (auto simp: called_merge_def terminateState_def)

text \<open>
  C1. \<^verbatim>\<open>addClosedState(s, cp)\<close> for an open state \<open>s\<close>. The calls it makes are appended
  to the executor's record in the order made. (1) No state has reached \<open>cp\<close>: the bucket
  becomes \<open>[s]\<close> and the one call is \<open>pauseState(s)\<close>. (2) The bucket is
  \<open>pre @ p # post\<close>, no peer of \<open>pre\<close> accepts and \<open>p\<close> does: the peers of \<open>pre\<close>
  are tried in bucket order, then \<open>p\<close>, then \<open>terminateState(s)\<close> is called once; no
  later peer is tried, \<open>s\<close> is not paused and every bucket is as before. (3) No peer of the
  bucket accepts: all are tried in bucket order, \<open>s\<close> is appended to the bucket and
  \<open>pauseState(s)\<close> is called once.
\<close>

theorem addClosedState_merge_rule:
  assumes "es \<in> set (openStates h)"
  shows
   "(reachedMergeClose h cp = None \<longrightarrow>
      (\<exists>h'. addClosedState merge ex h es cp =
               Inr (ex\<lparr>calls := calls ex @ [PauseState es]\<rparr>, h') \<and>
            reachedMergeClose h' = (reachedMergeClose h)(cp \<mapsto> [es]))) \<and>
    (\<forall>pre p post.
       reachedMergeClose h cp = Some (pre @ p # post) \<and>
       (\<forall>q\<in>set pre. \<not> merge q es) \<and> merge p es \<longrightarrow>
      (\<exists>h'. addClosedState merge ex h es cp =
               Inr (ex\<lparr>calls := calls ex @ map (\<lambda>q. Merge q es) pre @
                                   [Merge p es, TerminateState es]\<rparr>, h') \<and>
            reachedMergeClose h' = reachedMergeClose h)) \<and>
    (\<forall>cpv.
       reachedMergeClose h cp = Some cpv \<and> (\<forall>q\<in>set cpv. \<not> merge q es) \<longrightarrow>
      (\<exists>h'. addClosedState merge ex h es cp =
               Inr (ex\<lparr>calls := calls ex @ map (\<lambda>q. Merge q es) cpv @ [PauseState es]\<rparr>,
                    h') \<and>
            reachedMergeClose h' = (reachedMergeClose h)(cp \<mapsto> cpv @ [es])))"
proof -
  let ?h2 = "h\<lparr>closedStateCount := closedStateCount h + 1,
               closeMean :=
                 dadd (closeMean h)
                   (ddiv (dsub (double_of_nat (unat (getInstrDistance ex
                            (h\<lparr>closedStateCount := closedStateCount h + 1\<rparr>) es)))
                          (closeMean h))
                      (double_of_nat (unat (closedStateCount h + 1))))\<rparr>"
  from assms have "es \<in> set (openStates ?h2)" by simp
  note r = removeOpenState_present [OF this]
  show ?thesis
  proof (intro conjI allI impI)
    assume "reachedMergeClose h cp = None"
    with r show "\<exists>h'. addClosedState merge ex h es cp =
               Inr (ex\<lparr>calls := calls ex @ [PauseState es]\<rparr>, h') \<and>
            reachedMergeClose h' = (reachedMergeClose h)(cp \<mapsto> [es])"
      by (simp add: addClosedState_def Let_def pauseState_def)
  next
    fix pre p post
    assume a: "reachedMergeClose h cp = Some (pre @ p # post) \<and>
       (\<forall>q\<in>set pre. \<not> merge q es) \<and> merge p es"
    then have "try_merge merge ex (pre @ p # post) es =
       (ex\<lparr>calls := calls ex @ map (\<lambda>q. Merge q es) pre @ [Merge p es, TerminateState es]\<rparr>,
        True)"
      by (simp add: try_merge_first)
    with r a show "\<exists>h'. addClosedState merge ex h es cp =
               Inr (ex\<lparr>calls := calls ex @ map (\<lambda>q. Merge q es) pre @
                                   [Merge p es, TerminateState es]\<rparr>, h') \<and>
            reachedMergeClose h' = reachedMergeClose h"
      by (simp add: addClosedState_def Let_def)
  next
    fix cpv
    assume a: "reachedMergeClose h cp = Some cpv \<and> (\<forall>q\<in>set cpv. \<not> merge q es)"
    then have "try_merge merge ex cpv es =
        (ex\<lparr>calls := calls ex @ map (\<lambda>p. Merge p es) cpv\<rparr>, False)"
      by (simp add: try_merge_none)
    with r a show "\<exists>h'. addClosedState merge ex h es cp =
               Inr (ex\<lparr>calls := calls ex @ map (\<lambda>q. Merge q es) cpv @ [PauseState es]\<rparr>,
                    h') \<and>
            reachedMergeClose h' = (reachedMergeClose h)(cp \<mapsto> cpv @ [es])"
      by (simp add: addClosedState_def Let_def pauseState_def)
  qed
qed

text \<open>
  The three cases on a handler whose only open state is 5: an empty map, a bucket
  \<open>[1, 2, 3]\<close> where peer 2 accepts, and the same bucket where no peer accepts.
\<close>

theorem addClosedState_merge_rule_witness:
  "(case addClosedState (\<lambda>p s. False) (scenario_executor (\<lambda>es. 0) {})
           (scenario_handler [5] Map.empty 0 (Finite 0)) 5 100 of
      Inl e \<Rightarrow> False
    | Inr (ex', h') \<Rightarrow> calls ex' = [PauseState 5] \<and> reachedMergeClose h' 100 = Some [5]) \<and>
   (case addClosedState (\<lambda>p s. p = 2) (scenario_executor (\<lambda>es. 0) {})
           (scenario_handler [5] [100 \<mapsto> [1, 2, 3]] 3 (Finite 0)) 5 100 of
      Inl e \<Rightarrow> False
    | Inr (ex', h') \<Rightarrow> calls ex' = [Merge 1 5, Merge 2 5, TerminateState 5] \<and>
         reachedMergeClose h' 100 = Some [1, 2, 3]) \<and>
   (case addClosedState (\<lambda>p s. False) (scenario_executor (\<lambda>es. 0) {})
           (scenario_handler [5] [100 \<mapsto> [1, 2, 3]] 3 (Finite 0)) 5 100 of
      Inl e \<Rightarrow> False
    | Inr (ex', h') \<Rightarrow> calls ex' = [Merge 1 5, Merge 2 5, Merge 3 5, PauseState 5] \<and>
         reachedMergeClose h' 100 = Some [1, 2, 3, 5])"
proof -
  let ?ex = "scenario_executor (\<lambda>es. 0) {}"
  let ?g = "scenario_handler [5] Map.empty 0 (Finite 0)"
  let ?h = "scenario_handler [5] [100 \<mapsto> [1, 2, 3]] 3 (Finite 0)"
  have og: "5 \<in> set (openStates ?g)" and o: "5 \<in> set (openStates ?h)"
    by (simp_all add: scenario_defs)
  have a: "reachedMergeClose ?g 100 = None"
    by (simp add: scenario_defs)
  have b: "reachedMergeClose ?h 100 = Some ([1] @ 2 # [3]) \<and>
       (\<forall>q\<in>set [1::nat]. \<not> (\<lambda>p s. p = 2) q (5::nat)) \<and> (\<lambda>p s. p = 2) (2::nat) (5::nat)"
    by (simp add: scenario_defs)
  have c: "reachedMergeClose ?h 100 = Some [1, 2, 3] \<and>
       (\<forall>q\<in>set [1, 2, 3::nat]. \<not> (\<lambda>p s. False) q (5::nat))"
    by (simp add: scenario_defs)
  from addClosedState_merge_rule [OF og, of 100 "\<lambda>p s. False" ?ex] a
  have 1: "\<exists>h'. addClosedState (\<lambda>p s. False) ?ex ?g 5 100 =
               Inr (?ex\<lparr>calls := calls ?ex @ [PauseState 5]\<rparr>, h') \<and>
            reachedMergeClose h' = (reachedMergeClose ?g)(100 \<mapsto> [5])" by blast
  from addClosedState_merge_rule [OF o, of 100 "\<lambda>p s. p = 2" ?ex] b
  have 2: "\<exists>h'. addClosedState (\<lambda>p s. p = 2) ?ex ?h 5 100 =
               Inr (?ex\<lparr>calls := calls ?ex @ map (\<lambda>q. Merge q 5) [1] @
                                   [Merge 2 5, TerminateState 5]\<rparr>, h') \<and>
            reachedMergeClose h' = reachedMergeClose ?h" by blast
  from addClosedState_merge_rule [OF o, of 100 "\<lambda>p s. False" ?ex] c
  have 3: "\<exists>h'. addClosedState (\<lambda>p s. False) ?ex ?h 5 100 =
               Inr (?ex\<lparr>calls := calls ?ex @ map (\<lambda>q. Merge q 5) [1, 2, 3] @
                                   [PauseState 5]\<rparr>, h') \<and>
            reachedMergeClose h' = (reachedMergeClose ?h)(100 \<mapsto> [1, 2, 3] @ [5])" by blast
  from 1 2 3 show ?thesis
    by (auto simp: scenario_defs)
qed

subsection \<open>Rounding\<close>

lemma pow2_powr: "pow2 e = 2 powr real_of_int e"
proof (cases "0 \<le> e")
  case True
  then have "2 powr real_of_int e = 2 powr real (nat e)" by simp
  also have "\<dots> = 2 ^ nat e" by (simp add: powr_realpow)
  finally show ?thesis using True by (simp add: pow2_def)
next
  case False
  then have "2 powr real_of_int e = 2 powr (- real (nat (- e)))" by simp
  also have "\<dots> = 1 / 2 ^ nat (- e)" by (simp only: powr_minus_divide powr_realpow zero_less_numeral)
  finally show ?thesis using False by (simp add: pow2_def)
qed

lemma pow2_pos: "0 < pow2 e"
  by (simp add: pow2_powr)

lemma pow2_add: "pow2 (a + b) = pow2 a * pow2 b"
  by (simp add: pow2_powr powr_add)

lemma pow2_mono: "a \<le> b \<Longrightarrow> pow2 a \<le> pow2 b"
  by (simp add: pow2_powr)

lemma pow2_nat: "pow2 (int n) = 2 ^ n"
  by (simp add: pow2_def)

lemma pow2_neg: "pow2 (- int n) = 1 / 2 ^ n"
  by (cases "n = 0") (simp_all add: pow2_def)

lemma floor_log2_bounds:
  assumes "0 < x"
  shows "pow2 (floor_log2 x) \<le> x \<and> x < pow2 (floor_log2 x + 1)"
proof (cases "1 \<le> x")
  case True
  define n where "n = \<lfloor>x\<rfloor>"
  from True have n: "0 < n" by (simp add: n_def)
  from bitlen_bounds [OF n] have b: "2 ^ nat (bitlen n - 1) \<le> n" "n < 2 ^ nat (bitlen n)" by auto
  from n have bp: "0 < bitlen n" using bitlen_nonneg [of n] bitlen_eq_zero_iff [of n] by linarith
  have e: "floor_log2 x = bitlen n - 1" using True by (simp add: floor_log2_def n_def)
  have "pow2 (bitlen n - 1) = 2 ^ nat (bitlen n - 1)" using bp by (simp add: pow2_def)
  also have "\<dots> \<le> real_of_int n" using b(1) by (metis of_int_le_iff of_int_numeral of_int_power)
  also have "\<dots> \<le> x" by (simp add: n_def)
  finally have 1: "pow2 (floor_log2 x) \<le> x" by (simp add: e)
  have "x < real_of_int (n + 1)" by (simp add: n_def)
  also have "\<dots> \<le> real_of_int (2 ^ nat (bitlen n))" using b(2) by (simp only: of_int_le_iff)
  also have "\<dots> = pow2 (bitlen n)" using bp by (simp add: pow2_def)
  finally have "x < pow2 (floor_log2 x + 1)" by (simp add: e)
  with 1 show ?thesis ..
next
  case False
  define k where "k = \<lfloor>1 / x\<rfloor>"
  define b where "b = bitlen k"
  from False assms have "1 < 1 / x" by simp
  then have k: "0 < k" by (simp add: k_def)
  from bitlen_bounds [OF k] have bb: "2 ^ nat (b - 1) \<le> k" "k < 2 ^ nat b" by (auto simp: b_def)
  from k have bp: "0 < b" using bitlen_nonneg [of k] bitlen_eq_zero_iff [of k] unfolding b_def by linarith
  have "real_of_int (2 ^ nat (b - 1)) \<le> real_of_int k" using bb(1) by (simp only: of_int_le_iff)
  also have "\<dots> \<le> 1 / x" by (simp add: k_def)
  finally have lo: "2 ^ nat (b - 1) \<le> 1 / x" by simp
  have "1 / x < real_of_int (k + 1)" by (simp add: k_def)
  also have "\<dots> \<le> real_of_int (2 ^ nat b)" using bb(2) by (simp only: of_int_le_iff)
  finally have hi: "1 / x < 2 ^ nat b" by simp
  from lo assms have lo': "x * 2 ^ nat (b - 1) \<le> 1" by (simp add: field_simps)
  from hi assms have hi': "1 < x * 2 ^ nat b" by (simp add: field_simps)
  have p1: "pow2 (1 - b) = 1 / 2 ^ nat (b - 1)" using bp by (cases "b = 1") (simp_all add: pow2_def)
  have p0: "pow2 (- b) = 1 / 2 ^ nat b" using bp by (simp add: pow2_def)
  have p2: "pow2 (2 - b) = 2 * pow2 (1 - b)"
    using pow2_add [of 1 "1 - b"] by (simp add: pow2_def)
  show ?thesis
  proof (cases "x * 2 ^ nat (b - 1) = 1")
    case True
    then have e: "floor_log2 x = 1 - b" using False by (simp add: floor_log2_def k_def b_def Let_def)
    from True have x: "x = pow2 (1 - b)" by (simp add: p1 field_simps)
    have "pow2 (1 - b) \<le> x \<and> x < pow2 (1 - b + 1)"
      using pow2_pos [of "1 - b"] p2 unfolding x by (simp add: algebra_simps)
    then show ?thesis unfolding e .
  next
    case ne: False
    then have e: "floor_log2 x = - b" using False by (simp add: floor_log2_def k_def b_def Let_def)
    from ne lo' have "x * 2 ^ nat (b - 1) < 1" by simp
    then have "x < pow2 (1 - b)" by (simp add: p1 field_simps)
    moreover from hi' have "pow2 (- b) < x" by (simp add: p0 field_simps)
    ultimately show ?thesis by (simp add: e)
  qed
qed


lemma round_half_even_int: "round_half_even (real_of_int i) = i"
  by (simp add: round_half_even_def)

lemma pow2_less_cancel: "pow2 a < pow2 b \<Longrightarrow> a < b"
  by (simp add: pow2_powr)


lemma round_double_int:
  assumes "\<bar>n\<bar> < 2 ^ 53"
  shows "round_double (real_of_int n) = Finite (real_of_int n)"
proof (cases "n = 0")
  case True
  then show ?thesis by (simp add: round_double_def)
next
  case False
  define x where "x = real_of_int n"
  define e0 where "e0 = floor_log2 \<bar>x\<bar>"
  define e where "e = max (e0 - 52) (- 1074)"
  from False have "1 \<le> \<bar>n\<bar>" by simp
  then have "real_of_int 1 \<le> real_of_int \<bar>n\<bar>" by (simp only: of_int_le_iff)
  then have x1: "1 \<le> \<bar>x\<bar>" by (simp add: x_def)
  then have x0: "0 < \<bar>x\<bar>" "x \<noteq> 0" by auto
  from floor_log2_bounds [OF x0(1)]
  have lo: "pow2 e0 \<le> \<bar>x\<bar>" and hi: "\<bar>x\<bar> < pow2 (e0 + 1)" by (simp_all add: e0_def)
  have "\<bar>x\<bar> < 2 ^ 53" using assms unfolding x_def
    by (metis of_int_abs of_int_less_iff of_int_numeral of_int_power)
  with lo have "pow2 e0 < pow2 53" using pow2_nat [of 53] by simp
  then have "e0 < 53" by (rule pow2_less_cancel)
  from x1 hi have "pow2 0 < pow2 (e0 + 1)" by (simp add: pow2_def)
  then have "0 < e0 + 1" by (rule pow2_less_cancel)
  with \<open>e0 < 53\<close> have e: "e = e0 - 52" "0 \<le> e0" "e0 \<le> 52" by (simp_all add: e_def)
  have pe: "pow2 e = 1 / 2 ^ nat (52 - e0)"
    using pow2_neg [of "nat (52 - e0)"] e by simp
  have y: "x / pow2 e = real_of_int (n * 2 ^ nat (52 - e0))"
    by (simp add: pe x_def)
  have r: "real_of_int (round_half_even (x / pow2 e)) * pow2 e = x"
    unfolding y round_half_even_int by (simp add: pe x_def)
  have "\<bar>x\<bar> < 2 ^ 1024" using \<open>\<bar>x\<bar> < 2 ^ 53\<close>
    by (rule less_trans) simp
  then have "round_double x = Finite x"
    using x0(2) unfolding round_double_def Let_def e0_def [symmetric] e_def [symmetric] r
    by simp
  then show ?thesis by (simp add: x_def)
qed

lemma floor_log2_unique:
  assumes "0 < x" and "pow2 e \<le> x" and "x < pow2 (e + 1)"
  shows "floor_log2 x = e"
proof -
  from floor_log2_bounds [OF assms(1)]
  have lo: "pow2 (floor_log2 x) \<le> x" and hi: "x < pow2 (floor_log2 x + 1)" by simp_all
  from assms(2) hi have "pow2 e < pow2 (floor_log2 x + 1)" by simp
  then have "e < floor_log2 x + 1" by (rule pow2_less_cancel)
  moreover from lo assms(3) have "pow2 (floor_log2 x) < pow2 (e + 1)" by simp
  then have "floor_log2 x < e + 1" by (rule pow2_less_cancel)
  ultimately show ?thesis by simp
qed

lemma pow2_Suc: "pow2 (e + 1) = 2 * pow2 e"
  using pow2_add [of e 1] by (simp add: pow2_def)

text \<open>The double of a \<^verbatim>\<open>double\<close> is exact below the overflow.\<close>

lemma round_double_twice:
  assumes x: "round_double x = Finite x" and b: "\<bar>x\<bar> < 2 ^ 1023"
  shows "round_double (2 * x) = Finite (2 * x)"
proof (cases "x = 0")
  case True
  then show ?thesis by (simp add: round_double_def)
next
  case False
  define e0 where "e0 = floor_log2 \<bar>x\<bar>"
  define e where "e = max (e0 - 52) (- 1074)"
  define i where "i = round_half_even (x / pow2 e)"
  from False have pos: "0 < \<bar>x\<bar>" by simp
  from x False have r: "real_of_int i * pow2 e = x"
    unfolding round_double_def Let_def e0_def [symmetric] e_def [symmetric] i_def [symmetric]
    by (simp split: if_splits)
  from floor_log2_bounds [OF pos]
  have "pow2 e0 \<le> \<bar>x\<bar>" "\<bar>x\<bar> < pow2 (e0 + 1)" by (simp_all add: e0_def)
  then have "pow2 (e0 + 1) \<le> \<bar>2 * x\<bar>" "\<bar>2 * x\<bar> < pow2 (e0 + 1 + 1)"
    unfolding pow2_Suc by (simp_all add: abs_mult)
  with pos have e0': "floor_log2 \<bar>2 * x\<bar> = e0 + 1"
    by (intro floor_log2_unique) simp_all
  define e' where "e' = max (e0 + 1 - 52) (- 1074)"
  have "\<exists>j. 2 * x / pow2 e' = real_of_int j"
  proof (cases "- 1074 \<le> e0 - 52")
    case True
    then have "e' = e + 1" by (simp add: e'_def e_def)
    then have "2 * x / pow2 e' = x / pow2 e" by (simp add: pow2_Suc)
    also have "\<dots> = real_of_int i" using r pow2_pos [of e] by (simp add: field_simps)
    finally show ?thesis by blast
  next
    case False
    then have "e' = e" by (simp add: e'_def e_def)
    then have "2 * x / pow2 e' = 2 * (x / pow2 e)" by simp
    also have "x / pow2 e = real_of_int i" using r pow2_pos [of e] by (simp add: field_simps)
    finally have "2 * x / pow2 e' = real_of_int (2 * i)" by simp
    then show ?thesis by blast
  qed
  then obtain j where j: "2 * x / pow2 e' = real_of_int j" by blast
  then have r': "real_of_int (round_half_even (2 * x / pow2 e')) * pow2 e' = 2 * x"
    using pow2_pos [of e'] by (simp add: round_half_even_int field_simps)
  from b have fin: "\<not> 2 ^ 1024 \<le> \<bar>2 * x\<bar>" by (simp add: abs_mult)
  from False have nz: "2 * x \<noteq> 0" by simp
  show ?thesis
    unfolding round_double_def [of "2 * x"] Let_def e0' e'_def [symmetric] r'
    using nz fin by simp
qed

lemma twice_mean_reading:
  assumes "round_double x = Finite x" and "\<bar>x\<bar> < 2 ^ 1023"
  shows "dless (Finite a) (dmul (Finite 2) (Finite x)) = (a < 2 * x)"
  using round_double_twice [OF assms] by simp

lemma bitlen_numeral:
  "bitlen 1 = 1"
  "bitlen (numeral (Num.Bit0 k)) = bitlen (numeral k) + 1"
  "bitlen (numeral (Num.Bit1 k)) = bitlen (numeral k) + 1"
proof -
  show "bitlen 1 = 1" by (simp add: bitlen_alt_def)
  have d: "bitlen n = bitlen (n div 2) + 1" if "0 < n" for n
    using that by (subst bitlen_def) (simp add: compute_floorlog bitlen_def nat_div_distrib)
  show "bitlen (numeral (Num.Bit0 k)) = bitlen (numeral k) + 1"
    using d [of "numeral (Num.Bit0 k)"] by simp
  show "bitlen (numeral (Num.Bit1 k)) = bitlen (numeral k) + 1"
    using d [of "numeral (Num.Bit1 k)"] by simp
qed

lemmas round_eval = round_double_def floor_log2_def round_half_even_def pow2_def Let_def
  bitlen_numeral

subsection \<open>The running mean\<close>

lemma getInstrDistance_low32:
  "unat (getInstrDistance ex h es) =
     nat ((uint (steppedInstructions (states ex es)) - uint (openInstruction h)) mod 2 ^ 32)"
proof -
  let ?s = "steppedInstructions (states ex es)" and ?o = "openInstruction h"
  have "uint (ucast (?s - ?o) :: 32 word) = uint (?s - ?o) mod 2 ^ 32"
    by (simp add: unsigned_ucast_eq take_bit_eq_mod)
  also have "uint (?s - ?o) = (uint ?s - uint ?o) mod 2 ^ 64"
    by (simp add: uint_word_ariths)
  also have "(uint ?s - uint ?o) mod 2 ^ 64 mod 2 ^ 32 = (uint ?s - uint ?o) mod 2 ^ 32"
    by (rule mod_mod_cancel) simp
  finally show ?thesis
    by (simp add: getInstrDistance_def unat_eq_nat_uint)
qed

lemma getInstrDistance_bound: "unat (getInstrDistance ex h es) < 2 ^ 32"
  using unsigned_less [of "getInstrDistance ex h es", where 'a = nat] by simp



lemma double_of_nat_exact: "n < 2 ^ 53 \<Longrightarrow> double_of_nat n = Finite (real n)"
  using round_double_int [of "int n"] by (simp add: double_of_nat_def)




lemmas handler_eval = new_MergeHandler_def addOpenState_def addClosedState_def
  removeOpenState_def std_swap_def pop_back_def pauseState_def terminateState_def
  called_merge_def getInstrDistance_def getMean_def executor_at_def never_merge_def
  scenario_executor_def scenario_handler_def handler_opened_at_def


text \<open>
  The constructor does not set \<^verbatim>\<open>closeMean\<close>, and the first update reads it. With
  \<open>2 ^ 60\<close> in that memory, closes at distances 10 and 12 leave a mean of 6: the first
  difference \<open>10 - 2 ^ 60\<close> rounds to \<open>- 2 ^ 60\<close>. With NaN there the mean is NaN.
\<close>

lemma closeMean_uninitialised:
  "map_sum id getMean
     (addClosedStates (addOpenState (new_MergeHandler (executor_at 100) 1 (Finite (2 ^ 60))) 2)
        [(never_merge, executor_at 110, 1, 500), (never_merge, executor_at 112, 2, 500)]) =
   Inr (Finite 6)"
  "map_sum id getMean
     (addClosedStates (addOpenState (new_MergeHandler (executor_at 100) 1 NaN) 2)
        [(never_merge, executor_at 110, 1, 500), (never_merge, executor_at 112, 2, 500)]) =
   Inr NaN"
  by (simp_all add: handler_eval double_of_nat_def round_eval)




text \<open>
  The updates round: the mean of the distances 5, 8, 0, 1 is \<open>7 / 2\<close>, and \<^verbatim>\<open>getMean()\<close>
  is the next \<^verbatim>\<open>double\<close> above it.
\<close>

lemma closeMean_rounds:
  "map_sum id getMean
     (addClosedStates
        (addOpenState (addOpenState (addOpenState
           (new_MergeHandler (executor_at 100) 1 (Finite 0)) 2) 3) 4)
        [(never_merge, executor_at 105, 1, 500), (never_merge, executor_at 108, 2, 500),
         (never_merge, executor_at 100, 3, 500), (never_merge, executor_at 101, 4, 500)]) =
   Inr (Finite (7 / 2 + 1 / 2 ^ 51))"
proof -
  have n: "double_of_nat 0 = Finite 0" "double_of_nat (Suc 0) = Finite 1"
    "double_of_nat 2 = Finite 2" "double_of_nat 3 = Finite 3" "double_of_nat 4 = Finite 4"
    "double_of_nat 5 = Finite 5" "double_of_nat 8 = Finite 8"
    using double_of_nat_exact [of 0] double_of_nat_exact [of 1] double_of_nat_exact [of 2]
      double_of_nat_exact [of 3] double_of_nat_exact [of 4] double_of_nat_exact [of 5]
      double_of_nat_exact [of 8] by simp_all
  have u1: "dadd (Finite 0) (ddiv (dsub (Finite 5) (Finite 0)) (Finite 1)) = Finite 5"
    by (simp add: round_eval)
  have u2: "dadd (Finite 5) (ddiv (dsub (Finite 8) (Finite 5)) (Finite 2)) = Finite (13 / 2)"
    by (simp add: round_eval)
  have u3: "dadd (Finite (13 / 2)) (ddiv (dsub (Finite 0) (Finite (13 / 2))) (Finite 3)) =
            Finite (2439449798159019 / 562949953421312)"
    by (simp add: round_eval)
  have u4: "dadd (Finite (2439449798159019 / 562949953421312))
              (ddiv (dsub (Finite 1) (Finite (2439449798159019 / 562949953421312))) (Finite 4)) =
            Finite (7 / 2 + 1 / 2 ^ 51)"
    by (simp add: round_eval)
  show ?thesis
    by (simp add: handler_eval n u1 u2 u3 u4 del: dadd.simps dsub.simps ddiv.simps)
qed

subsection \<open>The prioritised state\<close>

lemma prioritize_from_find:
  "prioritize_from ex h xs =
     find (\<lambda>q. q \<notin> inCloseMerge ex \<and>
               dless (Finite (real (nat ((uint (steppedInstructions (states ex q)) -
                                          uint (openInstruction h)) mod 2 ^ 32))))
                     (dmul (Finite 2) (getMean h))) xs"
proof -
  have "double_of_nat (unat (getInstrDistance ex h q)) =
        Finite (real (nat ((uint (steppedInstructions (states ex q)) -
                            uint (openInstruction h)) mod 2 ^ 32)))" for q
  proof -
    have "unat (getInstrDistance ex h q) < 2 ^ 53"
      using getInstrDistance_bound [of ex h q] by (rule less_trans) simp
    from double_of_nat_exact [OF this] show ?thesis
      by (simp only: getInstrDistance_low32)
  qed
  then show ?thesis
    by (induction xs) (simp_all add: Let_def)
qed

lemma find_Some_split:
  "find P xs = Some s \<longleftrightarrow>
     (\<exists>pre post. xs = pre @ s # post \<and> P s \<and> (\<forall>q\<in>set pre. \<not> P q))"
  (is "_ \<longleftrightarrow> ?R xs")
proof (induction xs)
  case Nil
  then show ?case by simp
next
  case (Cons a xs)
  show ?case
  proof (cases "P a")
    case True
    have "?R (a # xs) \<longleftrightarrow> a = s"
    proof
      assume "?R (a # xs)"
      then obtain pre post where p: "a # xs = pre @ s # post" "\<forall>q\<in>set pre. \<not> P q" by blast
      show "a = s"
      proof (cases pre)
        case Nil
        with p show ?thesis by simp
      next
        case (Cons b bs)
        with p True show ?thesis by auto
      qed
    next
      assume "a = s"
      with True have "a # xs = [] @ s # xs \<and> P s \<and> (\<forall>q\<in>set []. \<not> P q)" by simp
      then show "?R (a # xs)" by blast
    qed
    with True show ?thesis by simp
  next
    case False
    have "?R (a # xs) \<longleftrightarrow> ?R xs"
    proof
      assume "?R (a # xs)"
      then obtain pre post where
        p: "a # xs = pre @ s # post" "P s" "\<forall>q\<in>set pre. \<not> P q" by blast
      show "?R xs"
      proof (cases pre)
        case Nil
        with p False show ?thesis by simp
      next
        case (Cons b bs)
        with p have "xs = bs @ s # post \<and> P s \<and> (\<forall>q\<in>set bs. \<not> P q)" by simp
        then show ?thesis by blast
      qed
    next
      assume "?R xs"
      then obtain pre post where
        p: "xs = pre @ s # post" "P s" "\<forall>q\<in>set pre. \<not> P q" by blast
      with False have
        "a # xs = (a # pre) @ s # post \<and> P s \<and> (\<forall>q\<in>set (a # pre). \<not> P q)" by simp
      then show "?R (a # xs)" by blast
    qed
    with False Cons.IH show ?thesis by simp
  qed
qed

text \<open>
  C5 does not hold as stated: the distance that is compared is the 32-bit value that
  \<^verbatim>\<open>getInstrDistance\<close> returns, not \<^verbatim>\<open>steppedInstructions - openInstruction\<close>. The handler
  opened at instruction 7 and has a mean of 6; its only open state has stepped 4294967308
  instructions and is not in \<^verbatim>\<open>inCloseMerge\<close>. Its distance 4294967301 is not below 12,
  and the state is returned: the 32-bit value is 5.
\<close>

theorem getPrioritizeState_distance_counterexample:
  "getPrioritizeState (executor_at 4294967308) (handler_opened_at 7 [10] 4 (Finite 6)) = Some 10 \<and>
   uint (steppedInstructions (states (executor_at 4294967308) 10)) -
     uint (openInstruction (handler_opened_at 7 [10] 4 (Finite 6))) = 4294967301"
  by (simp add: getPrioritizeState_def handler_eval double_of_nat_def round_eval)

text \<open>
  C5, amended. With \<^verbatim>\<open>closedStateCount\<close> not 0 and \<^verbatim>\<open>closeMean = m\<close>, call a state qualifying
  when it is not in the executor's \<^verbatim>\<open>inCloseMerge\<close> and its distance is strictly below the
  \<^verbatim>\<open>double\<close> \<open>2 * m\<close>, where the distance is the low 32 bits of
  \<^verbatim>\<open>steppedInstructions - openInstruction\<close>. \<^verbatim>\<open>getPrioritizeState()\<close> returns \<open>s\<close> exactly when
  \<open>s\<close> qualifies and stands in \<^verbatim>\<open>openStates\<close> after states that all do not qualify; it
  returns the null pointer exactly when no open state qualifies. When \<open>m\<close> is a finite
  \<^verbatim>\<open>double\<close> \<open>x\<close> of magnitude below \<open>2 ^ 1023\<close>, the comparison is that of the distance with
  the real number \<open>2 * x\<close>.
\<close>

theorem getPrioritizeState_first_qualifying:
  assumes "closedStateCount h \<noteq> 0" and "closeMean h = m"
  shows "(getPrioritizeState ex h = Some s \<longleftrightarrow>
           (\<exists>pre post. openStates h = pre @ s # post \<and>
              (s \<notin> inCloseMerge ex \<and>
               dless (Finite (real (nat ((uint (steppedInstructions (states ex s)) -
                                          uint (openInstruction h)) mod 2 ^ 32))))
                     (dmul (Finite 2) m)) \<and>
              (\<forall>q\<in>set pre. \<not> (q \<notin> inCloseMerge ex \<and>
                  dless (Finite (real (nat ((uint (steppedInstructions (states ex q)) -
                                             uint (openInstruction h)) mod 2 ^ 32))))
                        (dmul (Finite 2) m))))) \<and>
         (getPrioritizeState ex h = None \<longleftrightarrow>
           (\<forall>q\<in>set (openStates h). \<not> (q \<notin> inCloseMerge ex \<and>
                  dless (Finite (real (nat ((uint (steppedInstructions (states ex q)) -
                                             uint (openInstruction h)) mod 2 ^ 32))))
                        (dmul (Finite 2) m)))) \<and>
         (\<forall>x a. m = Finite x \<and> round_double x = Finite x \<and> \<bar>x\<bar> < 2 ^ 1023 \<longrightarrow>
                dless (Finite a) (dmul (Finite 2) m) = (a < 2 * x))"
proof -
  from assms have g: "getMean h = m" by (simp add: getMean_def)
  define P where
    "P = (\<lambda>q. q \<notin> inCloseMerge ex \<and>
               dless (Finite (real (nat ((uint (steppedInstructions (states ex q)) -
                                          uint (openInstruction h)) mod 2 ^ 32))))
                     (dmul (Finite 2) m))"
  have f: "getPrioritizeState ex h = find P (openStates h)"
    unfolding getPrioritizeState_def prioritize_from_find g P_def ..
  have n: "find P (openStates h) = None \<longleftrightarrow> (\<forall>q\<in>set (openStates h). \<not> P q)"
    unfolding find_None_iff by blast
  have r: "\<forall>x a. m = Finite x \<and> round_double x = Finite x \<and> \<bar>x\<bar> < 2 ^ 1023 \<longrightarrow>
                dless (Finite a) (dmul (Finite 2) m) = (a < 2 * x)"
    using twice_mean_reading by blast
  from n r show ?thesis unfolding f find_Some_split unfolding P_def by blast
qed

text \<open>
  Scenario E3 of the specification, in a region opened at instruction 100: open states
  10, 20, 30 at 105, 200 and 108 instructions, so at distances 5, 100, 8, and a mean of
  6. State 10 is returned; with 10 in \<^verbatim>\<open>inCloseMerge\<close>, state 30; with 10 and 30 there,
  none.
\<close>

theorem getPrioritizeState_first_qualifying_witness:
  "getPrioritizeState
      (scenario_executor (\<lambda>es. if es = 10 then 105 else if es = 20 then 200 else 108) {})
      (handler_opened_at 100 [10, 20, 30] 4 (Finite 6)) = Some 10 \<and>
   getPrioritizeState
      (scenario_executor (\<lambda>es. if es = 10 then 105 else if es = 20 then 200 else 108) {10})
      (handler_opened_at 100 [10, 20, 30] 4 (Finite 6)) = Some 30 \<and>
   getPrioritizeState
      (scenario_executor (\<lambda>es. if es = 10 then 105 else if es = 20 then 200 else 108) {10, 30})
      (handler_opened_at 100 [10, 20, 30] 4 (Finite 6)) = None"
proof -
  let ?st = "\<lambda>es::nat. if es = 10 then 105 else if es = 20 then 200 else (108::64 word)"
  let ?h = "handler_opened_at 100 [10, 20, 30] 4 (Finite 6)"
  let ?Q = "\<lambda>c q. q \<notin> inCloseMerge (scenario_executor ?st c) \<and>
                 dless (Finite (real (nat ((uint (steppedInstructions
                                                   (states (scenario_executor ?st c) q)) -
                                            uint (openInstruction ?h)) mod 2 ^ 32))))
                       (dmul (Finite 2) (Finite 6))"
  have n: "closedStateCount ?h \<noteq> 0" and m: "closeMean ?h = Finite 6"
    by (simp_all add: handler_opened_at_def scenario_defs)
  have six: "round_double 6 = Finite 6 \<and> \<bar>6::real\<bar> < 2 ^ 1023"
    using round_double_int [of 6] by simp
  note t = getPrioritizeState_first_qualifying [OF n m]
  have twelve: "dless (Finite a) (dmul (Finite 2) (Finite 6)) = (a < 12)" for a
    using t [THEN conjunct2, THEN conjunct2, rule_format, of 6 a] six by simp
  have "openStates ?h = [] @ 10 # [20, 30] \<and> ?Q {} 10 \<and> (\<forall>q\<in>set []. \<not> ?Q {} q)"
    unfolding twelve by (simp add: handler_opened_at_def scenario_defs)
  then have 1: "getPrioritizeState (scenario_executor ?st {}) ?h = Some 10"
    using t [of "scenario_executor ?st {}" 10, THEN conjunct1] by blast
  have "openStates ?h = [10, 20] @ 30 # [] \<and> ?Q {10} 30 \<and> (\<forall>q\<in>set [10, 20]. \<not> ?Q {10} q)"
    unfolding twelve by (simp add: handler_opened_at_def scenario_defs)
  then have 2: "getPrioritizeState (scenario_executor ?st {10}) ?h = Some 30"
    using t [of "scenario_executor ?st {10}" 30, THEN conjunct1] by blast
  have "\<forall>q\<in>set (openStates ?h). \<not> ?Q {10, 30} q"
    unfolding twelve by (simp add: handler_opened_at_def scenario_defs)
  then have 3: "getPrioritizeState (scenario_executor ?st {10, 30}) ?h = None"
    using t [of "scenario_executor ?st {10, 30}", THEN conjunct2, THEN conjunct1] by blast
  from 1 2 3 show ?thesis by simp
qed

subsection \<open>The order and the distinctness of the open states\<close>

text \<open>
  C7 does not hold as stated: the handler opens with state 1, states 2 and 3 are added,
  state 1 is removed. The open states are then iterated as 3, 2, while 2 was added
  before 3.
\<close>

theorem openStates_order_counterexample:
  "map_sum id openStates
     (apply_open_ops (new_MergeHandler idle_executor 1 (Finite 0))
        [AddOpen 2, AddOpen 3, RemoveOpen 1]) =
   Inr [3, 2]"
  by (simp add: new_MergeHandler_def addOpenState_def removeOpenState_def std_swap_def
      pop_back_def idle_executor_def executor_at_def scenario_defs Let_def)

text \<open>
  C7, amended. \<^verbatim>\<open>addOpenState\<close> appends the state and leaves the order of the others.
  \<^verbatim>\<open>removeOpenState(es)\<close>, for \<open>es\<close> open with first occurrence after \<open>pre\<close> and before
  \<open>post\<close>, leaves \<open>pre\<close> in place, puts the last open state where \<open>es\<close> was and keeps
  the states between in their order. With no state open twice, the remaining states are
  still in the order in which they were added exactly when \<open>es\<close> was the last or the last
  but one of the open states. For a state that is not open the assertion fails.
\<close>

theorem removeOpenState_moves_last:
  "openStates (addOpenState h es) = openStates h @ [es] \<and>
   (openStates h = pre @ es # post \<and> es \<notin> set pre \<longrightarrow>
      (\<exists>h'. removeOpenState h es = Inr h' \<and>
            openStates h' = (if post = [] then pre else pre @ last post # butlast post) \<and>
            (distinct (openStates h) \<longrightarrow>
               (openStates h' = pre @ post \<longleftrightarrow> length post \<le> 1)))) \<and>
   (es \<notin> set (openStates h) \<longrightarrow> removeOpenState h es = Inl AssertionFailed)"
proof -
  have order: "((if post = [] then pre else pre @ last post # butlast post) = pre @ post)
                 = (length post \<le> 1)"
    if d: "distinct (pre @ es # post)"
  proof (cases post rule: rev_cases)
    case Nil
    then show ?thesis by simp
  next
    case (snoc ys y)
    show ?thesis
    proof (cases ys)
      case Nil
      with snoc show ?thesis by simp
    next
      case (Cons z zs)
      from d snoc Cons have "y \<noteq> z" by auto
      with snoc Cons show ?thesis by simp
    qed
  qed
  show ?thesis
    using removeOpenState_shape [of h pre es post] removeOpenState_absent [of es h] order
    by (auto simp: addOpenState_def)
qed

theorem removeOpenState_moves_last_witness:
  "openStates (addOpenState (scenario_handler [1, 2] Map.empty 0 (Finite 0)) 3) = [1, 2, 3] \<and>
   map_sum id openStates (removeOpenState (scenario_handler [1, 2, 3, 4] Map.empty 0 (Finite 0)) 2) =
     Inr [1, 4, 3] \<and>
   map_sum id openStates (removeOpenState (scenario_handler [1, 2, 3, 4] Map.empty 0 (Finite 0)) 3) =
     Inr [1, 2, 4] \<and>
   map_sum id openStates (removeOpenState (scenario_handler [1, 2, 3, 4] Map.empty 0 (Finite 0)) 4) =
     Inr [1, 2, 3] \<and>
   removeOpenState (scenario_handler [1, 2, 3, 4] Map.empty 0 (Finite 0)) 5 = Inl AssertionFailed"
proof -
  let ?h = "scenario_handler [1, 2, 3, 4] Map.empty 0 (Finite 0)"
  have a: "openStates ?h = [1] @ 2 # [3, 4] \<and> 2 \<notin> set [1::nat]"
    and b: "openStates ?h = [1, 2, 3] @ 4 # [] \<and> 4 \<notin> set [1, 2, 3::nat]"
    and b': "openStates ?h = [1, 2] @ 3 # [4] \<and> 3 \<notin> set [1, 2::nat]"
    and c: "5 \<notin> set (openStates ?h)"
    and d: "distinct (openStates ?h)"
    by (simp_all add: scenario_defs)
  from removeOpenState_moves_last [of "scenario_handler [1, 2] Map.empty 0 (Finite 0)" 3]
  have 1: "openStates (addOpenState (scenario_handler [1, 2] Map.empty 0 (Finite 0)) 3) = [1, 2, 3]"
    by (simp add: scenario_defs)
  from removeOpenState_moves_last [of ?h 2 "[1]" "[3, 4]"] a d
  have 2: "\<exists>h'. removeOpenState ?h 2 = Inr h' \<and> openStates h' = [1, 4, 3] \<and>
                openStates h' \<noteq> [1] @ [3, 4]" by simp
  from removeOpenState_moves_last [of ?h 3 "[1, 2]" "[4]"] b' d
  have 3: "\<exists>h'. removeOpenState ?h 3 = Inr h' \<and> openStates h' = [1, 2, 4] \<and>
                openStates h' = [1, 2] @ [4]" by simp
  from removeOpenState_moves_last [of ?h 4 "[1, 2, 3]" "[]"] b
  have 4: "\<exists>h'. removeOpenState ?h 4 = Inr h' \<and> openStates h' = [1, 2, 3]" by simp
  from removeOpenState_moves_last [of ?h 5] c
  have 5: "removeOpenState ?h 5 = Inl AssertionFailed" by blast
  from 1 2 3 4 5 show ?thesis by auto
qed

text \<open>
  C8 does not hold as stated: \<^verbatim>\<open>addOpenState\<close> asserts nothing. Adding state 7 to the
  handler that state 7 opened returns normally and leaves 7 twice among the open states.
\<close>

theorem addOpenState_duplicate_counterexample:
  "map_sum id openStates (apply_open_ops (new_MergeHandler idle_executor 7 (Finite 0)) [AddOpen 7]) =
   Inr [7, 7]"
  by (simp add: new_MergeHandler_def addOpenState_def)

text \<open>
  C8, amended. When the open states are distinct, every \<^verbatim>\<open>addOpenState\<close> of a sequence is
  called with a state that is not open at that moment (\<open>adds_fresh\<close>, which the callers
  have to ensure: the code does not check it), and every \<^verbatim>\<open>removeOpenState\<close> passes its
  assertion, then the open states are distinct after the sequence.
\<close>

theorem openStates_distinct:
  assumes "distinct (openStates h)" and "adds_fresh h ops" and "apply_open_ops h ops = Inr h'"
  shows "distinct (openStates h')"
  using assms
proof (induction h ops rule: apply_open_ops.induct)
  case (1 h)
  then show ?case by simp
next
  case (2 h es ops)
  then show ?case by (simp add: addOpenState_def)
next
  case (3 h es ops)
  from "3.prems"(3) obtain h1 where r: "removeOpenState h es = Inr h1"
    and rest: "apply_open_ops h1 ops = Inr h'"
    by (auto split: sum.splits)
  from "3.prems"(2) r have f: "adds_fresh h1 ops" by simp
  from removeOpenState_distinct [OF r "3.prems"(1)] have "distinct (openStates h1)" .
  from "3.IH" [OF r this f rest] show ?case .
qed

theorem openStates_distinct_witness:
  "(case apply_open_ops (new_MergeHandler (scenario_executor (\<lambda>es. 0) {}) 1 (Finite 0))
           [AddOpen 2, AddOpen 3, RemoveOpen 1, AddOpen 1] of
      Inl e \<Rightarrow> False
    | Inr h \<Rightarrow> openStates h = [3, 2, 1] \<and> distinct (openStates h))"
proof -
  let ?h = "new_MergeHandler (scenario_executor (\<lambda>es. 0) {}) 1 (Finite 0)"
  let ?ops = "[AddOpen 2, AddOpen 3, RemoveOpen 1, AddOpen 1]"
  have d: "distinct (openStates ?h)"
    by (simp add: new_MergeHandler_def addOpenState_def)
  have f: "adds_fresh ?h ?ops"
    by (simp add: new_MergeHandler_def addOpenState_def removeOpenState_def std_swap_def
      pop_back_def Let_def)
  have "\<exists>h'. apply_open_ops ?h ?ops = Inr h' \<and> openStates h' = [3, 2, 1]"
    by (simp add: new_MergeHandler_def addOpenState_def removeOpenState_def std_swap_def
      pop_back_def Let_def)
  then obtain h' where r: "apply_open_ops ?h ?ops = Inr h'" and o: "openStates h' = [3, 2, 1]"
    by blast
  from openStates_distinct [OF d f r] r o show ?thesis by simp
qed

section \<open>Properties of the call tree\<close>

subsection \<open>Insertion\<close>

lemma nodes_children_of: "nodes t = nodes_children (children t)"
  by (cases t) simp

lemma siblings_distinct_of: "siblings_distinct eq t = siblings_distinct_children eq (children t)"
  by (cases t) simp

lemma addCallPath_tip [simp]: "tip (addCallPath eq t p pid) = tip t"
  by (cases p) simp_all

lemma addCallPath_children_tips:
  "set (map (\<lambda>n. call (tip n)) (addCallPath_children eq ch c next pid)) \<subseteq>
     insert c (set (map (\<lambda>n. call (tip n)) ch))"
  by (induction ch) auto

lemma siblings_distinct_add:
  "siblings_distinct eq t \<Longrightarrow> siblings_distinct eq (addCallPath eq t p pid)"
  "siblings_distinct_children eq ch \<Longrightarrow>
     siblings_distinct_children eq (addCallPath_children eq ch c next pid)"
proof (induction eq t p pid and eq ch c "next" pid rule: addCallPath_addCallPath_children.induct)
  case (1 eq t pid)
  then show ?case by simp
next
  case (2 eq t c "next" pid)
  then show ?case by (simp add: siblings_distinct_of)
next
  case (3 eq c "next" pid)
  then show ?case by simp
next
  case (4 eq n ns c "next" pid)
  show ?case
  proof (cases "eq (call (tip n)) c")
    case True
    with 4 show ?thesis by simp
  next
    case False
    have "\<forall>n'\<in>set (addCallPath_children eq ns c next pid). \<not> eq (call (tip n)) (call (tip n'))"
    proof
      fix n' assume "n' \<in> set (addCallPath_children eq ns c next pid)"
      then have "call (tip n') \<in> insert c (set (map (\<lambda>n. call (tip n)) ns))"
        using addCallPath_children_tips [of eq ns c "next" pid] by auto
      with False "4.prems" show "\<not> eq (call (tip n)) (call (tip n'))" by auto
    qed
    with False 4 show ?thesis by simp
  qed
qed

lemma nodes_grow:
  "set (nodes t) \<subseteq> set (nodes (addCallPath eq t p pid))"
  "set (nodes_children ch) \<subseteq> set (nodes_children (addCallPath_children eq ch c next pid))"
proof (induction eq t p pid and eq ch c "next" pid rule: addCallPath_addCallPath_children.induct)
  case (1 eq t pid)
  then show ?case by simp
next
  case (2 eq t c "next" pid)
  then show ?case by (simp add: nodes_children_of [of t])
next
  case (3 eq c "next" pid)
  then show ?case by simp
next
  case (4 eq n ns c "next" pid)
  then show ?case by (cases "eq (call (tip n)) c") auto
qed

lemma prefixes_covered:
  assumes r: "\<And>a. eq a a"
  shows "\<forall>k. 0 < k \<and> k \<le> length p \<longrightarrow>
            (\<exists>m\<in>set (nodes (addCallPath eq t p pid)). list_all2 eq m (take k p))"
    and "\<forall>k\<le>length next.
            (\<exists>m\<in>set (nodes_children (addCallPath_children eq ch c next pid)).
               list_all2 eq m (c # take k next))"
  using r
proof (induction eq t p pid and eq ch c "next" pid rule: addCallPath_addCallPath_children.induct)
  case (1 eq t pid)
  then show ?case by simp
next
  case (2 eq t c "next" pid)
  show ?case
  proof (intro allI impI)
    fix k assume k: "0 < k \<and> k \<le> length (c # next)"
    then obtain j where j: "k = Suc j" "j \<le> length next" by (cases k) auto
    with 2 show "\<exists>m\<in>set (nodes (addCallPath eq t (c # next) pid)).
            list_all2 eq m (take k (c # next))" by simp
  qed
next
  case (3 eq c "next" pid)
  let ?leaf = "CallTree [] \<lparr>call = c, path_id = pid\<rparr>"
  show ?case
  proof (intro allI impI)
    fix k assume k: "k \<le> length next"
    show "\<exists>m\<in>set (nodes_children (addCallPath_children eq [] c next pid)).
            list_all2 eq m (c # take k next)"
    proof (cases k)
      case 0
      with "3.prems" show ?thesis by simp
    next
      case (Suc j)
      with k "3.IH" "3.prems" obtain m where
        "m \<in> set (nodes (addCallPath eq ?leaf next pid))" "list_all2 eq m (take k next)"
        by auto
      with "3.prems" show ?thesis by auto
    qed
  qed
next
  case (4 eq n ns c "next" pid)
  show ?case
  proof (cases "eq (call (tip n)) c")
    case True
    show ?thesis
    proof (intro allI impI)
      fix k assume k: "k \<le> length next"
      show "\<exists>m\<in>set (nodes_children (addCallPath_children eq (n # ns) c next pid)).
            list_all2 eq m (c # take k next)"
      proof (cases k)
        case 0
        with True show ?thesis by simp
      next
        case (Suc j)
        with k "4.IH"(1) [OF True] "4.prems" obtain m where
          "m \<in> set (nodes (addCallPath eq n next pid))" "list_all2 eq m (take k next)"
          by auto
        with True show ?thesis by auto
      qed
    qed
  next
    case False
    with "4.IH"(2) "4.prems" show ?thesis by auto
  qed
qed

lemma new_nodes_are_prefixes:
  assumes r: "\<And>a. eq a a"
  shows "\<forall>m\<in>set (nodes (addCallPath eq t p pid)).
            m \<in> set (nodes t) \<or> (\<exists>k. 0 < k \<and> k \<le> length p \<and> list_all2 eq m (take k p))"
    and "\<forall>m\<in>set (nodes_children (addCallPath_children eq ch c next pid)).
            m \<in> set (nodes_children ch) \<or>
            (\<exists>k\<le>length next. list_all2 eq m (c # take k next))"
  using r
proof (induction eq t p pid and eq ch c "next" pid rule: addCallPath_addCallPath_children.induct)
  case (1 eq t pid)
  then show ?case by simp
next
  case (2 eq t c "next" pid)
  show ?case
  proof
    fix m assume "m \<in> set (nodes (addCallPath eq t (c # next) pid))"
    with 2 have "m \<in> set (nodes_children (children t)) \<or>
            (\<exists>k\<le>length next. list_all2 eq m (c # take k next))" by simp
    then show "m \<in> set (nodes t) \<or>
       (\<exists>k. 0 < k \<and> k \<le> length (c # next) \<and> list_all2 eq m (take k (c # next)))"
    proof
      assume "m \<in> set (nodes_children (children t))"
      then show ?thesis by (simp add: nodes_children_of [of t])
    next
      assume "\<exists>k\<le>length next. list_all2 eq m (c # take k next)"
      then obtain k where "k \<le> length next" "list_all2 eq m (c # take k next)" by blast
      then have "0 < Suc k \<and> Suc k \<le> length (c # next) \<and>
          list_all2 eq m (take (Suc k) (c # next))" by simp
      then show ?thesis by blast
    qed
  qed
next
  case (3 eq c "next" pid)
  let ?leaf = "CallTree [] \<lparr>call = c, path_id = pid\<rparr>"
  show ?case
  proof
    fix m assume "m \<in> set (nodes_children (addCallPath_children eq [] c next pid))"
    then have "m = [c] \<or> (\<exists>m'\<in>set (nodes (addCallPath eq ?leaf next pid)). m = c # m')"
      by auto
    then show "m \<in> set (nodes_children []) \<or>
            (\<exists>k\<le>length next. list_all2 eq m (c # take k next))"
    proof
      assume "m = [c]"
      with "3.prems" have "0 \<le> length next \<and> list_all2 eq m (c # take 0 next)" by simp
      then show ?thesis by blast
    next
      assume "\<exists>m'\<in>set (nodes (addCallPath eq ?leaf next pid)). m = c # m'"
      then obtain m' where m': "m' \<in> set (nodes (addCallPath eq ?leaf next pid))" "m = c # m'"
        by blast
      with "3.IH" "3.prems" obtain k where "k \<le> length next" "list_all2 eq m' (take k next)"
        by auto
      with m' "3.prems" have "k \<le> length next \<and> list_all2 eq m (c # take k next)" by simp
      then show ?thesis by blast
    qed
  qed
next
  case (4 eq n ns c "next" pid)
  show ?case
  proof (cases "eq (call (tip n)) c")
    case True
    show ?thesis
    proof
      fix m assume "m \<in> set (nodes_children (addCallPath_children eq (n # ns) c next pid))"
      with True have "m = [call (tip n)] \<or>
          (\<exists>m'\<in>set (nodes (addCallPath eq n next pid)). m = call (tip n) # m') \<or>
          m \<in> set (nodes_children ns)" by auto
      then show "m \<in> set (nodes_children (n # ns)) \<or>
            (\<exists>k\<le>length next. list_all2 eq m (c # take k next))"
      proof (elim disjE)
        assume "m = [call (tip n)]"
        then show ?thesis by simp
      next
        assume "m \<in> set (nodes_children ns)"
        then show ?thesis by simp
      next
        assume "\<exists>m'\<in>set (nodes (addCallPath eq n next pid)). m = call (tip n) # m'"
        then obtain m' where m': "m' \<in> set (nodes (addCallPath eq n next pid))"
          "m = call (tip n) # m'" by blast
        from "4.IH"(1) [OF True "4.prems"] m'(1)
        have "m' \<in> set (nodes n) \<or>
            (\<exists>k. 0 < k \<and> k \<le> length next \<and> list_all2 eq m' (take k next))" by blast
        then show ?thesis
        proof
          assume "m' \<in> set (nodes n)"
          with m' show ?thesis by simp
        next
          assume "\<exists>k. 0 < k \<and> k \<le> length next \<and> list_all2 eq m' (take k next)"
          then obtain k where "k \<le> length next" "list_all2 eq m' (take k next)" by blast
          with m' True have "k \<le> length next \<and> list_all2 eq m (c # take k next)" by simp
          then show ?thesis by blast
        qed
      qed
    qed
  next
    case False
    with "4.IH"(2) [OF False "4.prems"] show ?thesis by auto
  qed
qed

lemma nodes_nonempty:
  "[] \<notin> set (nodes (t :: 'c CallTree))" "[] \<notin> set (nodes_children (ch :: 'c CallTree list))"
  by (induction t and ch rule: nodes_nodes_children.induct) auto

lemma nodes_children_hd:
  "m \<in> set (nodes_children ch) \<Longrightarrow> \<exists>n\<in>set ch. \<exists>m'. m = call (tip n) # m'"
  by (induction ch) auto

lemma nodes_separated:
  assumes r: "\<And>a. eq a a" and s: "\<And>a b. eq a b \<Longrightarrow> eq b a"
  shows "siblings_distinct eq t \<Longrightarrow>
           distinct (nodes t) \<and>
           (\<forall>m\<in>set (nodes t). \<forall>m'\<in>set (nodes t). list_all2 eq m m' \<longrightarrow> m = m')"
    and "siblings_distinct_children eq ch \<Longrightarrow>
           distinct (nodes_children ch) \<and>
           (\<forall>m\<in>set (nodes_children ch). \<forall>m'\<in>set (nodes_children ch).
               list_all2 eq m m' \<longrightarrow> m = m')"
proof (induction t and ch rule: nodes_nodes_children.induct)
  case (1 ch tp)
  then show ?case by simp
next
  case 2
  then show ?case by simp
next
  case (3 n ns)
  let ?c = "call (tip n)"
  let ?A = "[?c] # map ((#) ?c) (nodes n)"
  from "3.prems" have sep: "\<forall>n'\<in>set ns. \<not> eq ?c (call (tip n'))"
    and dn: "siblings_distinct eq n" and dns: "siblings_distinct_children eq ns" by simp_all
  note ihn = "3.IH"(1) [OF dn] and ihns = "3.IH"(2) [OF dns]
  have A_hd: "\<forall>m\<in>set ?A. \<exists>m'. m = ?c # m'" by auto
  have cross: "\<not> list_all2 eq m m' \<and> \<not> list_all2 eq m' m"
    if "m \<in> set ?A" "m' \<in> set (nodes_children ns)" for m m'
  proof -
    from that(1) A_hd obtain a where a: "m = ?c # a" by blast
    from nodes_children_hd [OF that(2)] obtain n' b where b: "n' \<in> set ns" "m' = call (tip n') # b"
      by blast
    from sep b have "\<not> eq ?c (call (tip n'))" by blast
    moreover from this s have "\<not> eq (call (tip n')) ?c" by blast
    ultimately show ?thesis using a b by simp
  qed
  have refl2: "list_all2 eq m m" for m using r by (simp add: list_all2_same)
  have disj: "set ?A \<inter> set (nodes_children ns) = {}"
    using cross refl2 by blast
  have dA: "distinct ?A"
    using ihn nodes_nonempty(1) [of n] by (auto simp: distinct_map inj_on_def)
  have sA: "\<forall>m\<in>set ?A. \<forall>m'\<in>set ?A. list_all2 eq m m' \<longrightarrow> m = m'"
    using ihn by auto
  have "distinct (nodes_children (n # ns))"
    using dA ihns disj by simp
  moreover have "\<forall>m\<in>set (nodes_children (n # ns)). \<forall>m'\<in>set (nodes_children (n # ns)).
               list_all2 eq m m' \<longrightarrow> m = m'"
  proof (intro ballI impI)
    fix m m' assume m: "m \<in> set (nodes_children (n # ns))" "m' \<in> set (nodes_children (n # ns))"
      "list_all2 eq m m'"
    from m(1,2) have "m \<in> set ?A \<or> m \<in> set (nodes_children ns)"
      "m' \<in> set ?A \<or> m' \<in> set (nodes_children ns)" by auto
    then show "m = m'"
      using sA ihns cross m(3) by blast
  qed
  ultimately show ?case by blast
qed

lemma filter_eq_single:
  "distinct xs \<Longrightarrow> m \<in> set xs \<Longrightarrow> filter (\<lambda>x. x = m) xs = [m]"
  by (induction xs) (auto simp: filter_empty_conv)

lemma represents_new: "represents eq (new_CallTree d) {}"
  by (simp add: represents_def new_CallTree_def)

lemma represents_add:
  assumes r: "\<And>a. eq a a" and t: "represents eq t P"
  shows "represents eq (addCallPath eq t p pid) (P \<union> (\<lambda>k. take k p) ` {1..length p})"
proof -
  let ?t = "addCallPath eq t p pid"
  let ?N = "(\<lambda>k. take k p) ` {1..length p}"
  from t have d: "siblings_distinct eq ?t"
    by (simp add: represents_def siblings_distinct_add)
  have h_old: "\<forall>q\<in>P. \<exists>m\<in>set (nodes ?t). list_all2 eq m q"
    using t nodes_grow(1) [of t eq p pid] unfolding represents_def by blast
  have h_new: "\<forall>q\<in>?N. \<exists>m\<in>set (nodes ?t). list_all2 eq m q"
    using prefixes_covered(1) [where eq = eq, OF r, of p t pid] by auto
  have h_back: "\<forall>m\<in>set (nodes ?t). \<exists>q\<in>P \<union> ?N. list_all2 eq m q"
  proof
    fix m assume "m \<in> set (nodes ?t)"
    with new_nodes_are_prefixes(1) [where eq = eq, OF r, of t p pid]
    have "m \<in> set (nodes t) \<or> (\<exists>k. 0 < k \<and> k \<le> length p \<and> list_all2 eq m (take k p))"
      by blast
    then show "\<exists>q\<in>P \<union> ?N. list_all2 eq m q"
    proof
      assume "m \<in> set (nodes t)"
      with t show ?thesis unfolding represents_def by blast
    next
      assume "\<exists>k. 0 < k \<and> k \<le> length p \<and> list_all2 eq m (take k p)"
      then obtain k where k: "0 < k" "k \<le> length p" "list_all2 eq m (take k p)" by blast
      then have "take k p \<in> ?N" by (intro image_eqI [where x = k]) auto
      with k(3) show ?thesis by blast
    qed
  qed
  from d h_old h_new h_back show ?thesis unfolding represents_def by blast
qed

lemma represents_addCallPaths:
  assumes r: "\<And>a. eq a a"
  shows "represents eq t P \<Longrightarrow>
     represents eq (addCallPaths eq t ps)
       (P \<union> (\<Union>(p, pid)\<in>set ps. (\<lambda>k. take k p) ` {1..length p}))"
proof (induction ps arbitrary: t P)
  case Nil
  then show ?case by (simp add: addCallPaths_def)
next
  case (Cons a ps)
  obtain p pid where a: "a = (p, pid)" by (cases a)
  from represents_add [where eq = eq, OF r Cons.prems, of p pid]
  have "represents eq (addCallPath eq t p pid) (P \<union> (\<lambda>k. take k p) ` {1..length p})" .
  from Cons.IH [OF this] a show ?case
    by (simp add: addCallPaths_def Un_assoc)
qed

lemma list_all2_equivp:
  assumes "equivp eq"
  shows "list_all2 eq x x"
    and "list_all2 eq x y \<Longrightarrow> list_all2 eq y x"
    and "list_all2 eq x y \<Longrightarrow> list_all2 eq y z \<Longrightarrow> list_all2 eq x z"
proof -
  from assms have r: "\<And>a. eq a a"
    and s: "\<And>a b. eq a b \<Longrightarrow> eq b a"
    and tr: "\<And>a b c. eq a b \<Longrightarrow> eq b c \<Longrightarrow> eq a c"
    by (auto elim: equivpE dest: reflpD sympD transpD)
  show "list_all2 eq x x" using r by (simp add: list_all2_same)
  show "list_all2 eq y x" if "list_all2 eq x y"
    using that s by (simp add: list_all2_conv_all_nth)
  show "list_all2 eq x z" if "list_all2 eq x y" "list_all2 eq y z"
    using tr that by (rule list_all2_trans)
qed

lemma equivp_list_all2:
  assumes "equivp eq"
  shows "equiv UNIV {(x, y). list_all2 eq x y}"
proof -
  note l = list_all2_equivp [OF assms]
  have "refl {(x, y). list_all2 eq x y}"
    unfolding refl_on_def using l(1) by simp
  moreover have "sym {(x, y). list_all2 eq x y}"
    unfolding sym_def using l(2) by simp
  moreover have "trans {(x, y). list_all2 eq x y}"
    unfolding trans_def using l(3) by fast
  ultimately show ?thesis by (simp add: equiv_def)
qed

lemma represents_card:
  assumes e: "equivp eq" and t: "represents eq t P"
  shows "length (nodes t) = card (P // {(x, y). list_all2 eq x y})"
proof -
  let ?r = "{(x, y). list_all2 eq x y}"
  from e have r: "\<And>a. eq a a" and s: "\<And>a b. eq a b \<Longrightarrow> eq b a"
    by (auto elim: equivpE dest: reflpD sympD)
  note eqv = equivp_list_all2 [OF e]
  from t have d: "siblings_distinct eq t" by (simp add: represents_def)
  from nodes_separated(1) [where eq = eq, OF r s d]
  have dist: "distinct (nodes t)"
    and sep: "\<forall>m\<in>set (nodes t). \<forall>m'\<in>set (nodes t). list_all2 eq m m' \<longrightarrow> m = m'" by blast+
  have img: "(\<lambda>m. ?r `` {m}) ` set (nodes t) = P // ?r"
  proof (intro set_eqI iffI)
    fix X assume "X \<in> (\<lambda>m. ?r `` {m}) ` set (nodes t)"
    then obtain m where m: "m \<in> set (nodes t)" "X = ?r `` {m}" by blast
    with t obtain q where q: "q \<in> P" "list_all2 eq m q" unfolding represents_def by blast
    then have "(m, q) \<in> ?r" by simp
    then have "?r `` {m} = ?r `` {q}" by (rule equiv_class_eq [OF eqv])
    with m have "X = ?r `` {q}" by (simp only:)
    with q(1) show "X \<in> P // ?r" by (simp only: quotientI)
  next
    fix X assume "X \<in> P // ?r"
    then obtain q where q: "q \<in> P" "X = ?r `` {q}" by (auto elim: quotientE)
    with t obtain m where m: "m \<in> set (nodes t)" "list_all2 eq m q"
      unfolding represents_def by blast
    then have "(m, q) \<in> ?r" by simp
    then have "?r `` {m} = ?r `` {q}" by (rule equiv_class_eq [OF eqv])
    with q have "X = ?r `` {m}" by (simp only:)
    with m(1) show "X \<in> (\<lambda>m. ?r `` {m}) ` set (nodes t)" by blast
  qed
  have inj: "inj_on (\<lambda>m. ?r `` {m}) (set (nodes t))"
  proof (rule inj_onI)
    fix m m' assume m: "m \<in> set (nodes t)" "m' \<in> set (nodes t)" "?r `` {m} = ?r `` {m'}"
    from eq_equiv_class [OF m(3) eqv] have "(m, m') \<in> ?r" by simp
    with sep m show "m = m'" by blast
  qed
  have "card (P // ?r) = card (set (nodes t))"
    unfolding img [symmetric] by (rule card_image [OF inj])
  with dist show ?thesis by (simp add: distinct_card)
qed

lemma represents_single:
  assumes e: "equivp eq" and t: "represents eq t P"
    and A: "qa \<in> P" and B: "list_all2 eq qa qb"
  shows "\<exists>m. filter (\<lambda>m'. list_all2 eq m' qa \<or> list_all2 eq m' qb) (nodes t) = [m]"
proof -
  from e have r: "\<And>a. eq a a" and s: "\<And>a b. eq a b \<Longrightarrow> eq b a"
    by (auto elim: equivpE dest: reflpD sympD)
  note eqv = equivp_list_all2 [OF e]
  note sym2 = list_all2_equivp(2) [OF e] and tr2 = list_all2_equivp(3) [OF e]
  from t have d: "siblings_distinct eq t" by (simp add: represents_def)
  from nodes_separated(1) [where eq = eq, OF r s d]
  have dist: "distinct (nodes t)"
    and sep: "\<forall>m\<in>set (nodes t). \<forall>m'\<in>set (nodes t). list_all2 eq m m' \<longrightarrow> m = m'" by blast+
  from t A obtain m where m: "m \<in> set (nodes t)" "list_all2 eq m qa"
    unfolding represents_def by blast
  have "(list_all2 eq m' qa \<or> list_all2 eq m' qb) \<longleftrightarrow> m' = m" if "m' \<in> set (nodes t)" for m'
  proof
    assume "list_all2 eq m' qa \<or> list_all2 eq m' qb"
    then have "list_all2 eq m' qa" using B sym2 tr2 by blast
    with m have "list_all2 eq m' m" using sym2 tr2 by blast
    with sep that m show "m' = m" by blast
  next
    assume "m' = m"
    with m show "list_all2 eq m' qa \<or> list_all2 eq m' qb" by simp
  qed
  then have "filter (\<lambda>m'. list_all2 eq m' qa \<or> list_all2 eq m' qb) (nodes t) =
             filter (\<lambda>x. x = m) (nodes t)"
    by (intro filter_cong) auto
  with filter_eq_single [OF dist m(1)] show ?thesis by simp
qed

text \<open>
  C3. Let \<open>eq\<close> be an equivalence. (1) For \<open>c1\<close>, \<open>c2\<close> equal to \<open>c1'\<close>, \<open>c2'\<close> and
  \<open>c3\<close> not equal to \<open>c4\<close>, adding \<open>[c1, c2, c3]\<close> and then \<open>[c1', c2', c4]\<close> to the
  empty tree gives one node for \<open>c1\<close>, one node for \<open>c2\<close> below it, and below that two
  children, for \<open>c3\<close> and for \<open>c4\<close>. (2) After any sequence of paths is added to the empty
  tree, two of the paths that agree on their first \<open>k\<close> calls have one node for these:
  exactly one node of the tree matches the first \<open>k\<close> calls of either. (3) The number of
  nodes (the root apart) is the number of distinct non-empty prefixes of the added
  paths, prefixes that agree call by call counted once.
\<close>

theorem addCallPath_shares_prefixes:
  assumes "equivp eq"
  shows
   "(eq c1 c1' \<and> eq c2 c2' \<and> \<not> eq c3 c4 \<longrightarrow>
       addCallPath eq (addCallPath eq (new_CallTree d) [c1, c2, c3] i) [c1', c2', c4] j =
         CallTree [CallTree [CallTree [CallTree [] \<lparr>call = c3, path_id = i\<rparr>,
                                       CallTree [] \<lparr>call = c4, path_id = j\<rparr>]
                              \<lparr>call = c2, path_id = i\<rparr>]
                    \<lparr>call = c1, path_id = i\<rparr>]
           \<lparr>call = d, path_id = 0\<rparr>) \<and>
    (\<forall>A B k. A \<in> fst ` set ps \<and> B \<in> fst ` set ps \<and> 0 < k \<and> k \<le> length A \<and> k \<le> length B \<and>
        list_all2 eq (take k A) (take k B) \<longrightarrow>
        (\<exists>m. filter (\<lambda>m'. list_all2 eq m' (take k A) \<or> list_all2 eq m' (take k B))
                (nodes (addCallPaths eq (new_CallTree d) ps)) = [m])) \<and>
    length (nodes (addCallPaths eq (new_CallTree d) ps)) =
      card ((\<Union>(p, pid)\<in>set ps. (\<lambda>k. take k p) ` {1..length p}) // {(x, y). list_all2 eq x y})"
proof -
  let ?T = "addCallPaths eq (new_CallTree d) ps"
  let ?P = "\<Union>(p, pid)\<in>set ps. (\<lambda>k. take k p) ` {1..length p}"
  from assms have r: "\<And>a. eq a a" by (auto elim: equivpE dest: reflpD)
  from represents_addCallPaths [where eq = eq, OF r represents_new]
  have rep: "represents eq ?T ?P" by simp
  have 1: "eq c1 c1' \<and> eq c2 c2' \<and> \<not> eq c3 c4 \<longrightarrow>
       addCallPath eq (addCallPath eq (new_CallTree d) [c1, c2, c3] i) [c1', c2', c4] j =
         CallTree [CallTree [CallTree [CallTree [] \<lparr>call = c3, path_id = i\<rparr>,
                                       CallTree [] \<lparr>call = c4, path_id = j\<rparr>]
                              \<lparr>call = c2, path_id = i\<rparr>]
                    \<lparr>call = c1, path_id = i\<rparr>]
           \<lparr>call = d, path_id = 0\<rparr>"
    by (simp add: new_CallTree_def)
  have 2: "\<exists>m. filter (\<lambda>m'. list_all2 eq m' (take k A) \<or> list_all2 eq m' (take k B)) (nodes ?T) = [m]"
    if "A \<in> fst ` set ps \<and> B \<in> fst ` set ps \<and> 0 < k \<and> k \<le> length A \<and> k \<le> length B \<and>
        list_all2 eq (take k A) (take k B)" for A B k
  proof -
    from that obtain pid where "(A, pid) \<in> set ps" by auto
    moreover from that have "k \<in> {1..length A}" by simp
    ultimately have "take k A \<in> ?P" by blast
    from represents_single [OF assms rep this] that show ?thesis by blast
  qed
  from 1 2 represents_card [OF assms rep] show ?thesis by blast
qed

text \<open>
  Calls are numbers, equal when they agree modulo 10: the paths \<open>[1, 2, 3]\<close> and
  \<open>[11, 12, 4]\<close> share their first two nodes, and the tree has four nodes.
\<close>

lemma mod10_equivp: "equivp (\<lambda>a b::nat. a mod 10 = b mod 10)"
  by (intro equivpI reflpI sympI transpI) auto

theorem addCallPath_shares_prefixes_witness:
  "addCallPath (\<lambda>a b::nat. a mod 10 = b mod 10)
      (addCallPath (\<lambda>a b. a mod 10 = b mod 10) (new_CallTree 0) [1, 2, 3] 7) [11, 12, 4] 8 =
     CallTree [CallTree [CallTree [CallTree [] \<lparr>call = 3, path_id = 7\<rparr>,
                                   CallTree [] \<lparr>call = 4, path_id = 8\<rparr>]
                          \<lparr>call = 2, path_id = 7\<rparr>]
                \<lparr>call = 1, path_id = 7\<rparr>]
       \<lparr>call = 0, path_id = 0\<rparr> \<and>
   (\<exists>m. filter (\<lambda>m'. list_all2 (\<lambda>a b. a mod 10 = b mod 10) m' (take 2 [1, 2, 3]) \<or>
                     list_all2 (\<lambda>a b. a mod 10 = b mod 10) m' (take 2 [11, 12, 4]))
           (nodes (addCallPaths (\<lambda>a b::nat. a mod 10 = b mod 10) (new_CallTree 0)
                     [([1, 2, 3], 7), ([11, 12, 4], 8)])) = [m]) \<and>
   length (nodes (addCallPaths (\<lambda>a b::nat. a mod 10 = b mod 10) (new_CallTree 0)
                     [([1, 2, 3], 7), ([11, 12, 4], 8)])) = 4 \<and>
   card ((\<Union>(p, pid)\<in>set [([1, 2, 3], 7 :: 32 word), ([11, 12, 4::nat], 8)].
            (\<lambda>k. take k p) ` {1..length p}) //
         {(x, y). list_all2 (\<lambda>a b. a mod 10 = b mod 10) x y}) = 4"
proof -
  let ?eq = "\<lambda>a b::nat. a mod 10 = b mod 10"
  let ?ps = "[([1, 2, 3], 7 :: 32 word), ([11, 12, 4::nat], 8)]"
  note t = addCallPath_shares_prefixes [OF mod10_equivp, of 1 11 2 12 3 4 0 7 8 ?ps]
  have h1: "?eq 1 11 \<and> ?eq 2 12 \<and> \<not> ?eq 3 4" by simp
  have h2: "[1, 2, 3] \<in> fst ` set ?ps \<and> [11, 12, 4] \<in> fst ` set ?ps \<and> 0 < (2::nat) \<and>
        2 \<le> length [1, 2, 3::nat] \<and> 2 \<le> length [11, 12, 4::nat] \<and>
        list_all2 ?eq (take 2 [1, 2, 3]) (take 2 [11, 12, 4])"
    by (simp add: numeral_2_eq_2)
  have n: "length (nodes (addCallPaths ?eq (new_CallTree 0) ?ps)) = 4"
    by (simp add: addCallPaths_def new_CallTree_def)
  from t [THEN conjunct1] h1 have c1: "addCallPath ?eq
      (addCallPath ?eq (new_CallTree 0) [1, 2, 3] 7) [11, 12, 4] 8 =
     CallTree [CallTree [CallTree [CallTree [] \<lparr>call = 3, path_id = 7\<rparr>,
                                   CallTree [] \<lparr>call = 4, path_id = 8\<rparr>]
                          \<lparr>call = 2, path_id = 7\<rparr>]
                \<lparr>call = 1, path_id = 7\<rparr>]
       \<lparr>call = 0, path_id = 0\<rparr>" by (rule mp)
  from t [THEN conjunct2, THEN conjunct1] h2
  have c2: "\<exists>m. filter (\<lambda>m'. list_all2 ?eq m' (take 2 [1, 2, 3]) \<or>
                     list_all2 ?eq m' (take 2 [11, 12, 4]))
           (nodes (addCallPaths ?eq (new_CallTree 0) ?ps)) = [m]" by blast
  from t [THEN conjunct2, THEN conjunct2] n
  have c3: "card ((\<Union>(p, pid)\<in>set ?ps. (\<lambda>k. take k p) ` {1..length p}) //
         {(x, y). list_all2 ?eq x y}) = 4" by simp
  from c1 c2 n c3 show ?thesis by (intro conjI)
qed

subsection \<open>Grouping\<close>

lemma place_tip_cases:
  "(\<exists>pre g post. gs = pre @ g # post \<and>
        sI (call (tip (ch ! ci))) (call (tip (ch ! (g ! 0)))) \<and>
        place_tip sI ch ci gs = pre @ (g @ [ci]) # post) \<or>
   place_tip sI ch ci gs = gs @ [[ci]]"
proof (induction gs)
  case Nil
  then show ?case by simp
next
  case (Cons g gs)
  show ?case
  proof (cases "sI (call (tip (ch ! ci))) (call (tip (ch ! (g ! 0))))")
    case True
    then have "g # gs = [] @ g # gs \<and> sI (call (tip (ch ! ci))) (call (tip (ch ! (g ! 0)))) \<and>
        place_tip sI ch ci (g # gs) = [] @ (g @ [ci]) # gs" by simp
    then show ?thesis by blast
  next
    case False
    from Cons.IH show ?thesis
    proof
      assume "\<exists>pre g' post. gs = pre @ g' # post \<and>
        sI (call (tip (ch ! ci))) (call (tip (ch ! (g' ! 0)))) \<and>
        place_tip sI ch ci gs = pre @ (g' @ [ci]) # post"
      then obtain pre g' post where "gs = pre @ g' # post"
        "sI (call (tip (ch ! ci))) (call (tip (ch ! (g' ! 0))))"
        "place_tip sI ch ci gs = pre @ (g' @ [ci]) # post" by blast
      with False have "g # gs = (g # pre) @ g' # post \<and>
        sI (call (tip (ch ! ci))) (call (tip (ch ! (g' ! 0)))) \<and>
        place_tip sI ch ci (g # gs) = (g # pre) @ (g' @ [ci]) # post" by simp
      then show ?thesis by blast
    next
      assume "place_tip sI ch ci gs = gs @ [[ci]]"
      with False show ?thesis by simp
    qed
  qed
qed

lemma sorted_wrt_snoc_less:
  "sorted_wrt (<) g \<Longrightarrow> \<forall>i\<in>set g. i < (k::nat) \<Longrightarrow> sorted_wrt (<) (g @ [k])"
  by (simp add: sorted_wrt_append)

lemma grouped_step:
  assumes "grouped sI ch k gs"
  shows "grouped sI ch (Suc k) (place_tip sI ch k gs)"
proof -
  from assms have ne: "[] \<notin> set gs"
    and srt: "\<forall>g\<in>set gs. sorted_wrt (<) g"
    and hds: "sorted_wrt (<) (map hd gs)"
    and all: "set (concat gs) = {..<k}"
    and dst: "distinct (concat gs)"
    and rep: "\<forall>g\<in>set gs. \<forall>i\<in>set g. i = hd g \<or> sI (call (tip (ch ! i))) (call (tip (ch ! hd g)))"
    by (simp_all add: grouped_def)
  from all have lt: "\<forall>g\<in>set gs. \<forall>i\<in>set g. i < k" by auto
  from place_tip_cases [of gs sI ch k] show ?thesis
  proof
    assume "\<exists>pre g post. gs = pre @ g # post \<and>
        sI (call (tip (ch ! k))) (call (tip (ch ! (g ! 0)))) \<and>
        place_tip sI ch k gs = pre @ (g @ [k]) # post"
    then obtain pre g post where gs: "gs = pre @ g # post"
      and s: "sI (call (tip (ch ! k))) (call (tip (ch ! (g ! 0))))"
      and p: "place_tip sI ch k gs = pre @ (g @ [k]) # post" by blast
    from ne gs have gne: "g \<noteq> []" by auto
    then have hd: "hd (g @ [k]) = hd g" "g ! 0 = hd g" by (simp_all add: hd_conv_nth [of g])
    have 1: "[] \<notin> set (pre @ (g @ [k]) # post)" using ne gs by auto
    have 2: "\<forall>g'\<in>set (pre @ (g @ [k]) # post). sorted_wrt (<) g'"
      using srt lt gs by (auto simp: sorted_wrt_append)
    have 3: "sorted_wrt (<) (map hd (pre @ (g @ [k]) # post))"
      using hds gs hd by simp
    have 4: "set (concat (pre @ (g @ [k]) # post)) = {..<Suc k}"
      using all gs by (auto simp: lessThan_Suc)
    have kn: "k \<notin> set (concat gs)" using all by simp
    have 5: "distinct (concat (pre @ (g @ [k]) # post))"
      using dst kn gs by auto
    have 6: "\<forall>g'\<in>set (pre @ (g @ [k]) # post). \<forall>i\<in>set g'.
        i = hd g' \<or> sI (call (tip (ch ! i))) (call (tip (ch ! hd g')))"
      using rep gs s hd by auto
    from 1 2 3 4 5 6 show ?thesis unfolding p grouped_def by blast
  next
    assume p: "place_tip sI ch k gs = gs @ [[k]]"
    have 3: "sorted_wrt (<) (map hd (gs @ [[k]]))"
    proof -
      have "\<forall>g\<in>set gs. hd g < k" using ne lt by (metis hd_in_set)
      with hds show ?thesis by (simp add: sorted_wrt_append)
    qed
    have 4: "set (concat (gs @ [[k]])) = {..<Suc k}"
      using all by (auto simp: lessThan_Suc)
    have 5: "distinct (concat (gs @ [[k]]))" using dst all by auto
    from ne srt 3 4 5 rep show ?thesis unfolding p grouped_def by auto
  qed
qed

lemma grouped_upto:
  "grouped sI ch k (foldl (\<lambda>ret ci. place_tip sI ch ci ret) [] [0..<k])"
proof (induction k)
  case 0
  show ?case by (simp add: grouped_def)
next
  case (Suc k)
  from grouped_step [OF Suc] show ?case by simp
qed

lemma groupChildren_grouped:
  "grouped sI (children t) (length (children t)) (groupChildren sI t)"
  unfolding groupChildren_def by (rule grouped_upto)

text \<open>
  C4. \<^verbatim>\<open>groupChildren\<close> depends on the children only. Its groups are not empty; every
  child (index) is in exactly one group; when \<open>sameInvocation\<close> is an equivalence any two
  tips of a group are \<open>sameInvocation\<close>; the first members of the groups come in the order
  of the children, and so do the members of each group.
\<close>

theorem groupChildren_partition:
  assumes "equivp sameInvocation"
  shows "(children t' = children t \<longrightarrow>
            groupChildren sameInvocation t' = groupChildren sameInvocation t) \<and>
         [] \<notin> set (groupChildren sameInvocation t) \<and>
         distinct (concat (groupChildren sameInvocation t)) \<and>
         set (concat (groupChildren sameInvocation t)) = {..<length (children t)} \<and>
         (\<forall>g\<in>set (groupChildren sameInvocation t). \<forall>i\<in>set g. \<forall>j\<in>set g.
            sameInvocation (call (tip (children t ! i))) (call (tip (children t ! j)))) \<and>
         sorted_wrt (<) (map hd (groupChildren sameInvocation t)) \<and>
         (\<forall>g\<in>set (groupChildren sameInvocation t). sorted_wrt (<) g)"
proof -
  let ?gs = "groupChildren sameInvocation t"
  let ?c = "\<lambda>i. call (tip (children t ! i))"
  note g = groupChildren_grouped [of sameInvocation t, unfolded grouped_def]
  from assms have r: "\<And>a. sameInvocation a a"
    and s: "\<And>a b. sameInvocation a b \<Longrightarrow> sameInvocation b a"
    and tr: "\<And>a b c. sameInvocation a b \<Longrightarrow> sameInvocation b c \<Longrightarrow> sameInvocation a c"
    by (auto elim: equivpE dest: reflpD sympD transpD)
  have pairs: "\<forall>g\<in>set ?gs. \<forall>i\<in>set g. \<forall>j\<in>set g. sameInvocation (?c i) (?c j)"
  proof (intro ballI)
    fix g i j
    assume "g \<in> set ?gs" "i \<in> set g" "j \<in> set g"
    with g have "i = hd g \<or> sameInvocation (?c i) (?c (hd g))"
      and "j = hd g \<or> sameInvocation (?c j) (?c (hd g))" by blast+
    then have "sameInvocation (?c i) (?c (hd g))" and "sameInvocation (?c j) (?c (hd g))"
      using r by auto
    then show "sameInvocation (?c i) (?c j)" using s tr by blast
  qed
  have "children t' = children t \<longrightarrow> groupChildren sameInvocation t' = ?gs"
    by (simp add: groupChildren_def)
  with g pairs show ?thesis by blast
qed

text \<open>
  Seven children whose calls are numbers, invocation-equivalent when of the same parity.
\<close>

lemma mod2_equivp: "equivp (\<lambda>a b::nat. a mod 2 = b mod 2)"
  by (intro equivpI reflpI sympI transpI) auto

theorem groupChildren_partition_witness:
  "groupChildren (\<lambda>a b::nat. a mod 2 = b mod 2)
     (CallTree (map (\<lambda>c. CallTree [] \<lparr>call = c, path_id = 0\<rparr>) [1, 2, 3, 4, 5, 7, 6])
        \<lparr>call = 0, path_id = 0\<rparr>) = [[0, 2, 4, 5], [1, 3, 6]] \<and>
   distinct (concat (groupChildren (\<lambda>a b::nat. a mod 2 = b mod 2)
     (CallTree (map (\<lambda>c. CallTree [] \<lparr>call = c, path_id = 0\<rparr>) [1, 2, 3, 4, 5, 7, 6])
        \<lparr>call = 0, path_id = 0\<rparr>))) \<and>
   set (concat (groupChildren (\<lambda>a b::nat. a mod 2 = b mod 2)
     (CallTree (map (\<lambda>c. CallTree [] \<lparr>call = c, path_id = 0\<rparr>) [1, 2, 3, 4, 5, 7, 6])
        \<lparr>call = 0, path_id = 0\<rparr>))) = {..<7}"
proof -
  let ?sI = "\<lambda>a b::nat. a mod 2 = b mod 2"
  let ?t = "CallTree (map (\<lambda>c. CallTree [] \<lparr>call = c, path_id = 0\<rparr>) [1, 2, 3, 4, 5, 7, 6::nat])
        \<lparr>call = 0, path_id = 0\<rparr>"
  have g: "groupChildren ?sI ?t = [[0, 2, 4, 5], [1, 3, 6]]"
    by code_simp
  from groupChildren_partition [OF mod2_equivp, of ?t ?t]
  have "distinct (concat (groupChildren ?sI ?t)) \<and>
        set (concat (groupChildren ?sI ?t)) = {..<length (children ?t)}" by blast
  with g show ?thesis by simp
qed

section \<open>Properties of the object names\<close>

lemma rfind_None: "rfind s c = None \<longleftrightarrow> c \<notin> set s"
  by (induction s) (auto split: option.splits)

lemma rfind_last: "c \<notin> set suf \<Longrightarrow> rfind (pre @ c # suf) c = Some (length pre)"
proof (induction pre)
  case Nil
  then show ?case using rfind_None [of suf c] by simp
next
  case (Cons a pre)
  then show ?case by simp
qed

lemma all_digits_from_iff:
  "all_digits_from name j \<longleftrightarrow> (\<forall>c\<in>set (drop j name). CHR ''0'' \<le> c \<and> c \<le> CHR ''9'')"
proof (induction name j rule: all_digits_from.induct)
  case (1 name j)
  show ?case
  proof (cases "j < length name")
    case True
    then have d: "drop j name = name ! j # drop (Suc j) name"
      by (simp add: Cons_nth_drop_Suc)
    show ?thesis
    proof (cases "CHR ''0'' \<le> name ! j \<and> name ! j \<le> CHR ''9''")
      case digit: True
      with True "1.IH" show ?thesis
        by (subst all_digits_from.simps) (simp add: d)
    next
      case False
      with True show ?thesis
        by (subst all_digits_from.simps) (auto simp: d)
    qed
  next
    case False
    then show ?thesis by (subst all_digits_from.simps) simp
  qed
qed

text \<open>
  C9. A name with no underscore is emitted unchanged. A name \<open>pre_suf\<close>, where \<open>suf\<close>
  has no underscore (so that the underscore before it is the last): when all
  characters of \<open>suf\<close> are digits (also when \<open>suf\<close> is empty) the name emitted is \<open>pre\<close>,
  and when some character of \<open>suf\<close> is not a digit the name is emitted unchanged.
\<close>

theorem ktest_object_name_strips_digits:
  "(CHR ''_'' \<notin> set name \<longrightarrow> ktest_object_name name = name) \<and>
   (name = pre @ CHR ''_'' # suf \<and> CHR ''_'' \<notin> set suf \<and>
      (\<forall>c\<in>set suf. CHR ''0'' \<le> c \<and> c \<le> CHR ''9'') \<longrightarrow> ktest_object_name name = pre) \<and>
   (name = pre @ CHR ''_'' # suf \<and> CHR ''_'' \<notin> set suf \<and>
      \<not> (\<forall>c\<in>set suf. CHR ''0'' \<le> c \<and> c \<le> CHR ''9'') \<longrightarrow> ktest_object_name name = name)"
proof (intro conjI impI)
  assume "CHR ''_'' \<notin> set name"
  then show "ktest_object_name name = name"
    using rfind_None [of name "CHR ''_''"] by (simp add: ktest_object_name_def)
next
  assume a: "name = pre @ CHR ''_'' # suf \<and> CHR ''_'' \<notin> set suf \<and>
      (\<forall>c\<in>set suf. CHR ''0'' \<le> c \<and> c \<le> CHR ''9'')"
  then have "rfind name CHR ''_'' = Some (length pre)" by (simp add: rfind_last)
  moreover from a have "all_digits_from name (length pre + 1)"
    by (simp add: all_digits_from_iff)
  ultimately show "ktest_object_name name = pre"
    using a by (simp add: ktest_object_name_def substr_def)
next
  assume a: "name = pre @ CHR ''_'' # suf \<and> CHR ''_'' \<notin> set suf \<and>
      \<not> (\<forall>c\<in>set suf. CHR ''0'' \<le> c \<and> c \<le> CHR ''9'')"
  then have "rfind name CHR ''_'' = Some (length pre)" by (simp add: rfind_last)
  moreover from a have "\<not> all_digits_from name (length pre + 1)"
    by (simp add: all_digits_from_iff)
  ultimately show "ktest_object_name name = name"
    by (simp add: ktest_object_name_def)
qed

theorem ktest_object_name_strips_digits_witness:
  "ktest_object_name ''noscore'' = ''noscore'' \<and>
   ktest_object_name ''arr_in_12'' = ''arr_in'' \<and>
   ktest_object_name ''x_1a'' = ''x_1a'' \<and>
   ktest_object_name ''tail_'' = ''tail''"
proof -
  have 1: "CHR ''_'' \<notin> set ''noscore''" by simp
  have 2: "''arr_in_12'' = ''arr_in'' @ CHR ''_'' # ''12'' \<and> CHR ''_'' \<notin> set ''12'' \<and>
      (\<forall>c\<in>set ''12''. CHR ''0'' \<le> c \<and> c \<le> CHR ''9'')"
    by (simp add: less_eq_char_def)
  have 3: "''x_1a'' = ''x'' @ CHR ''_'' # ''1a'' \<and> CHR ''_'' \<notin> set ''1a'' \<and>
      \<not> (\<forall>c\<in>set ''1a''. CHR ''0'' \<le> c \<and> c \<le> CHR ''9'')"
    by (simp add: less_eq_char_def)
  have 4: "''tail_'' = ''tail'' @ CHR ''_'' # [] \<and> CHR ''_'' \<notin> set [] \<and>
      (\<forall>c\<in>set []. CHR ''0'' \<le> c \<and> c \<le> CHR ''9'')"
    by simp
  from ktest_object_name_strips_digits [of "''noscore''"] 1
       ktest_object_name_strips_digits [of "''arr_in_12''" "''arr_in''" "''12''"] 2
       ktest_object_name_strips_digits [of "''x_1a''" "''x''" "''1a''"] 3
       ktest_object_name_strips_digits [of "''tail_''" "''tail''" "[]"] 4
  show ?thesis by blast
qed

section \<open>Properties of \<open>klee_make_symbolic_range\<close>\<close>

text \<open>
  With a length other than 0 the intrinsic makes its five calls, in this order.
\<close>

lemma klee_make_symbolic_range_calls:
  assumes "addr \<noteq> 0" and "name \<noteq> 0" and "nbytes \<noteq> 0"
  shows "\<exists>rt'. klee_make_symbolic_range env rt addr offset nbytes name = Inr rt' \<and>
     runtime_calls rt' = runtime_calls rt @
       [Klee_check_memory_access (addr + offset) nbytes,
        Malloc nbytes (malloc_returns env),
        Klee_make_symbolic (malloc_returns env) nbytes name,
        Memcpy (addr + offset) (malloc_returns env) nbytes,
        Free (malloc_returns env)]"
  using assms
  by (simp add: klee_make_symbolic_range_def klee_check_memory_access_def malloc_def
      klee_make_symbolic_def memcpy_def free_def Let_def)

text \<open>
  C10. With \<^verbatim>\<open>addr\<close> and \<^verbatim>\<open>name\<close> not null and \<^verbatim>\<open>nbytes = 0\<close> the intrinsic returns
  with the runtime state it was called in: no call of \<^verbatim>\<open>klee_check_memory_access\<close>,
  \<^verbatim>\<open>klee_make_symbolic\<close> or any other function is made, and no byte of memory changes.
\<close>

theorem klee_make_symbolic_range_zero:
  assumes "addr \<noteq> 0" and "name \<noteq> 0"
  shows "klee_make_symbolic_range env rt addr offset 0 name = Inr rt"
  using assms by (simp add: klee_make_symbolic_range_def)

theorem klee_make_symbolic_range_zero_witness:
  "klee_make_symbolic_range \<lparr>malloc_returns = 4096, symbolic_byte = (\<lambda>i. 255)\<rparr>
      \<lparr>bytes = (\<lambda>a. 0), runtime_calls = []\<rparr> 1024 8 0 2048 =
     Inr \<lparr>bytes = (\<lambda>a. 0), runtime_calls = []\<rparr>"
  using klee_make_symbolic_range_zero [of 1024 2048] by simp

section \<open>Properties of the call-path dumps\<close>

lemma fst_seq_Nil: "fst (seq []) = Continue"
  by simp

lemma fst_seq_Cons: "fst (seq (s # rest)) = (if fst s = Continue then fst (seq rest) else fst s)"
  by (cases s; cases "fst s") (auto split: prod.splits)

lemmas fst_seq = fst_seq_Nil fst_seq_Cons


lemma seq_ReturnFalse: "fst (seq steps) = ReturnFalse \<Longrightarrow> \<exists>s\<in>set steps. fst s = ReturnFalse"
  by (induction steps) (simp_all add: fst_seq split: if_splits)

lemma emit_status: "fst (emit s) = Continue" "fst skip = Continue"
  "fst return_false = ReturnFalse"
  by (simp_all add: emit_def skip_def return_false_def)

lemma emit_deref_status: "fst (emit_deref r) \<noteq> ReturnFalse"
  "fst (emit_deref r) = Continue \<longleftrightarrow> r \<noteq> None"
  by (simp_all add: emit_deref_def split: option.splits)

lemma emit_ref_status: "fst (emit_ref print_ref r) \<noteq> ReturnFalse"
  by (simp add: emit_ref_def split: sum.splits)

lemma assert_status: "fst (assert b) \<noteq> ReturnFalse"
  by (simp add: assert_def)

lemmas step_status = fst_seq emit_status emit_deref_status emit_ref_status assert_status



















lemma dump_calls_all:
  assumes "\<forall>c\<in>set cs. fst (dumpCallInfo print_ref c) = Inr True"
  shows "dump_calls print_ref cs =
           (Inr (), concat (map (\<lambda>c. snd (dumpCallInfo print_ref c)) cs))"
  using assms
proof (induction cs)
  case Nil
  then show ?case by simp
next
  case (Cons c cs)
  then show ?case by (cases "dumpCallInfo print_ref c") simp
qed

lemma seq_never_ReturnFalse:
  "(\<And>s. s \<in> set steps \<Longrightarrow> fst s \<noteq> ReturnFalse) \<Longrightarrow> fst (seq steps) \<noteq> ReturnFalse"
  using seq_ReturnFalse [of steps] by blast

lemma dumpPointeeInSExpr_status: "fst (dumpPointeeInSExpr fd) \<noteq> ReturnFalse"
proof (induction fd rule: dumpPointeeInSExpr.induct)
  case (1 name type addr traceIn inV traceOut outV fs)
  have "fst (seq (map (\<lambda>i. seq [emit ''\<newline>((fname '', emit dquote,
                                     emit (fd_name (snd i)), emit dquote,
                                     emit '') (value '',
                                     dumpPointeeInSExpr (snd i),
                                     emit '') (addr '', emit (decimal (fd_addr (snd i))),
                                     emit ''))'']) fs)) \<noteq> ReturnFalse"
    by (rule seq_never_ReturnFalse) (use "1.IH" in \<open>auto simp: step_status split: if_splits\<close>)
  then show ?case by (simp add: step_status)
qed

lemma dumpPointeeOutSExpr_status: "fst (dumpPointeeOutSExpr fd) \<noteq> ReturnFalse"
proof (induction fd rule: dumpPointeeOutSExpr.induct)
  case (1 name type addr traceIn inV traceOut outV fs)
  have "fst (seq (map (\<lambda>i. seq [emit ''\<newline>((fname '', emit dquote,
                                     emit (fd_name (snd i)), emit dquote,
                                     emit '') (value '',
                                     dumpPointeeOutSExpr (snd i),
                                     emit '') (addr '', emit (decimal (fd_addr (snd i))),
                                     emit '' ))'']) fs)) \<noteq> ReturnFalse"
    by (rule seq_never_ReturnFalse) (use "1.IH" in \<open>auto simp: step_status split: if_splits\<close>)
  then show ?case by (simp add: step_status)
qed

lemma dumpCallArgSExpr_status: "fst (dumpCallArgSExpr arg) \<noteq> ReturnFalse"
  unfolding dumpCallArgSExpr_def
  by (simp add: step_status dumpPointeeInSExpr_status dumpPointeeOutSExpr_status)

lemma dumpRetSExpr_status: "fst (dumpRetSExpr r) \<noteq> ReturnFalse"
  unfolding dumpRetSExpr_def
  by (simp add: step_status dumpPointeeOutSExpr_status)

lemma result_ignored_status: "fst (result_ignored s) \<noteq> ReturnFalse"
  by (cases s; cases "fst s") (auto simp: result_ignored_def)

lemma dumpCallInfoSExpr_never_false: "fst (dumpCallInfoSExpr ci) \<noteq> Inr False"
proof -
  have 1: "fst (seq (map dumpCallArgSExpr (args ci))) \<noteq> ReturnFalse"
    by (rule seq_never_ReturnFalse) (auto simp: dumpCallArgSExpr_status)
  have 2: "fst (seq (map (\<lambda>i. result_ignored (dumpExtraPtrSExpr (snd i))) (extraPtrs ci)))
             \<noteq> ReturnFalse"
    by (rule seq_never_ReturnFalse) (auto simp: result_ignored_status)
  have 3: "fst (seq (map (\<lambda>c. seq [emit ''\<newline>'', emit c]) cs)) \<noteq> ReturnFalse" for cs
    by (rule seq_never_ReturnFalse) (auto simp: step_status)
  have "fst (dumpCallInfoSExpr_steps ci) \<noteq> ReturnFalse"
    unfolding dumpCallInfoSExpr_steps_def
    using 1 2 3 [of "callContext ci"] 3 [of "returnContext ci"] dumpRetSExpr_status [of "ret ci"]
    by (simp add: step_status)
  then show ?thesis
    by (cases "dumpCallInfoSExpr_steps ci"; cases "fst (dumpCallInfoSExpr_steps ci)")
       (auto simp: dumpCallInfoSExpr_def)
qed








end
